theory Spec2Isabelle
  imports Complex_Main "HOL-Library.Word" "HOL-Library.Multiset"
begin

section \<open>Data model\<close>

text \<open>
  The development follows the C implementation (\<^verbatim>\<open>c/main.c\<close> with its header):
  registration, packing and compositing. Of the C++ implementation (\<^verbatim>\<open>main.cpp\<close>) the
  packing is modelled as well, where it differs from the C one; its registration and its
  compositing compute the same offsets and the same bytes.

  \<^item> \<^verbatim>\<open>int32_t\<close> values are modelled as \<open>int\<close>. Signed overflow is undefined behaviour in C.
    The sum of the padded areas and the product \<^verbatim>\<open>size * size\<close> of the packing pre-check
    leave the range of \<^verbatim>\<open>int\<close> on inputs that pass every other check; there the model writes
    out the two's complement result that the compiled program computes (\<open>int32\<close> below).
    The other signed operations (a size plus the padding, a position plus a size, an index
    into a buffer) are taken not to overflow.
  \<^item> \<^verbatim>\<open>uint32_t buffer_index\<close> is a \<open>32 word\<close>: unsigned arithmetic wraps around.
  \<^item> \<^verbatim>\<open>uint8_t\<close> buffers are lists of \<open>8 word\<close>; a read or write outside a buffer is a
    fault of the model (the value \<open>None\<close>, or an error), never a silent no-op.
  \<^item> \<^verbatim>\<open>blocs__assert\<close> prints and calls \<^verbatim>\<open>abort()\<close>: a failed assertion is an error value.

  The fields \<^verbatim>\<open>x, y, w, h\<close> of \<^verbatim>\<open>blocs__rect\<close> are named \<open>rect_x\<close>, \<open>rect_y\<close>, \<open>rect_w\<close>,
  \<open>rect_h\<close>, and the fields of \<^verbatim>\<open>blocs__image\<close> \<open>image_w\<close>, \<open>image_h\<close>, \<open>image_data\<close>, so that the
  single letters stay free for variables.
\<close>

type_synonym byte = "8 word"

definition CHANNELS :: int where
  "CHANNELS = 4"

record blocs__image =
  image_w :: int
  image_h :: int
  image_data :: "byte list option"

record blocs__rect =
  rect_x :: int
  rect_y :: int
  rect_w :: int
  rect_h :: int

record blocs__texture =
  rect :: blocs__rect
  name_index :: int
  buffer_index :: "32 word"


section \<open>Registration: \<^verbatim>\<open>blocs__add_texture\<close>\<close>

text \<open>
  \<^verbatim>\<open>memcpy(dst + d, src + s, n)\<close> on two buffers: the bytes \<open>d ..< d + n\<close> of \<open>dst\<close> become the
  bytes \<open>s ..< s + n\<close> of \<open>src\<close>. A range that leaves either buffer is a fault.
\<close>

definition memcpy :: "byte list \<Rightarrow> int \<Rightarrow> byte list \<Rightarrow> int \<Rightarrow> int \<Rightarrow> byte list option" where
  "memcpy dst d src s n =
     (if 0 \<le> n \<and> 0 \<le> d \<and> d + n \<le> int (length dst) \<and> 0 \<le> s \<and> s + n \<le> int (length src) then
        Some (take (nat d) dst @ take (nat n) (drop (nat s) src) @ drop (nat (d + n)) dst)
      else None)"

text \<open>
  The initialiser of \<^verbatim>\<open>blocs__add_texture\<close>: position zero, the size of the image, the name
  index and the current value of the cursor into the staging buffer.
\<close>

definition new_texture :: "int \<Rightarrow> int \<Rightarrow> int \<Rightarrow> 32 word \<Rightarrow> blocs__texture" where
  "new_texture w h name_idx buffer_pos =
     \<lparr>rect = \<lparr>rect_x = 0, rect_y = 0, rect_w = w, rect_h = h\<rparr>,
      name_index = name_idx, buffer_index = buffer_pos\<rparr>"

text \<open>
  The state that \<^verbatim>\<open>blocs__add_texture\<close> works on is the texture array, the staging buffer
  and the cursor \<^verbatim>\<open>*buffer_index\<close> (here \<open>buffer_pos\<close>). The result is \<open>None\<close> when the
  assertion fails or an access leaves an array.
\<close>

type_synonym staging = "blocs__texture list \<times> byte list \<times> 32 word"

definition blocs__add_texture ::
  "blocs__texture list \<Rightarrow> nat \<Rightarrow> byte list \<Rightarrow> 32 word \<Rightarrow> blocs__image \<Rightarrow> int \<Rightarrow> staging option" where
  "blocs__add_texture textures index buffer buffer_pos img name_idx =
     (case image_data img of
        None \<Rightarrow> None
      | Some data \<Rightarrow>
          if \<not> index < length textures then None
          else
            (let texture = new_texture (image_w img) (image_h img) name_idx buffer_pos;
                 buffer_length = (word_of_int (image_w img * image_h img * CHANNELS) :: 32 word)
             in case memcpy buffer (uint buffer_pos) data 0 (uint buffer_length) of
                  None \<Rightarrow> None
                | Some buffer' \<Rightarrow>
                    Some (textures[index := texture], buffer', buffer_pos + buffer_length)))"

text \<open>
  The loop of \<^verbatim>\<open>main\<close> that registers the images in order, from index \<open>i\<close> on, with its
  assertion on the size of each image.
\<close>

fun add_textures :: "int \<Rightarrow> bool \<Rightarrow> blocs__image list \<Rightarrow> nat \<Rightarrow> staging \<Rightarrow> staging option" where
  "add_textures atlas_size demo [] i st = Some st"
| "add_textures atlas_size demo (img # images) i (textures, buffer, buffer_pos) =
     (if \<not> (image_w img \<le> atlas_size \<and> image_h img \<le> atlas_size) then None
      else
        (case blocs__add_texture textures i buffer buffer_pos img (if demo then 0 else int i) of
           None \<Rightarrow> None
         | Some st \<Rightarrow> add_textures atlas_size demo images (Suc i) st))"

text \<open>The number of bytes of an image, and that number as the \<^verbatim>\<open>uint32_t\<close> the code stores.\<close>

definition image_bytes :: "blocs__image \<Rightarrow> int" where
  "image_bytes img = image_w img * image_h img * CHANNELS"

definition stored_bytes :: "blocs__image \<Rightarrow> int" where
  "stored_bytes img = uint (word_of_int (image_bytes img) :: 32 word)"

section \<open>Packing: \<^verbatim>\<open>blocs__pack_atlas\<close>\<close>

text \<open>
  The two assertions before the placement loop are the errors \<open>OversizedTexture\<close> and
  \<open>InsufficientSpace\<close>; the assertion inside the loop is \<open>TextureLarger\<close>. The array
  \<^verbatim>\<open>blocs__rect spaces[len]\<close> has \<open>len\<close> slots: a write \<^verbatim>\<open>spaces[n++] = ...\<close> with \<open>n = len\<close>
  is outside the array, which the model reports as \<open>SpacesOutOfBounds\<close>.
  An error carries the texture array as it is when the run stops.
\<close>

datatype pack_error =
  OversizedTexture | InsufficientSpace | TextureLarger | SpacesOutOfBounds

type_synonym pack_result = "(pack_error \<times> blocs__texture list) + blocs__texture list"

text \<open>
  \<^verbatim>\<open>qsort\<close> belongs to the C library. It is a parameter of the model: a function from a
  comparison function and an array to the rearranged array. The C standard promises that
  the result is a rearrangement of the input in ascending order of the comparison function,
  and leaves the order of elements that compare equal unspecified.
\<close>

type_synonym 'a qsort = "('a \<Rightarrow> 'a \<Rightarrow> int) \<Rightarrow> 'a list \<Rightarrow> 'a list"

definition qsort_spec :: "('a \<Rightarrow> 'a \<Rightarrow> int) \<Rightarrow> 'a qsort \<Rightarrow> bool" where
  "qsort_spec cmp qs \<longleftrightarrow>
     (\<forall>xs. mset (qs cmp xs) = mset xs \<and> sorted_wrt (\<lambda>a b. cmp a b \<le> 0) (qs cmp xs))"

definition blocs__compare_area :: "blocs__texture \<Rightarrow> blocs__texture \<Rightarrow> int" where
  "blocs__compare_area a b = rect_h (rect b) - rect_h (rect a)"

text \<open>
  The value that a signed 32-bit operation leaves in an \<^verbatim>\<open>int\<close> when the exact result is \<open>v\<close>:
  \<open>v\<close> itself inside \<open>[-2\<^sup>3\<^sup>1, 2\<^sup>3\<^sup>1)\<close>, and \<open>v\<close> reduced modulo \<open>2\<^sup>3\<^sup>2\<close> into that range outside.
\<close>

definition int32 :: "int \<Rightarrow> int" where
  "int32 v = (v + 2 ^ 31) mod 2 ^ 32 - 2 ^ 31"

text \<open>
  The first loop: total padded area and the largest padded width and height. The product
  and the sum of \<^verbatim>\<open>area += (rect.w + padding) * (rect.h + padding)\<close> are \<^verbatim>\<open>int\<close> operations.
\<close>

fun measure_textures :: "int \<Rightarrow> blocs__texture list \<Rightarrow> int \<times> int \<times> int \<Rightarrow> int \<times> int \<times> int" where
  "measure_textures padding [] (area, max_w, max_h) = (area, max_w, max_h)"
| "measure_textures padding (t # ts) (area, max_w, max_h) =
     measure_textures padding ts
       (int32 (area + int32 ((rect_w (rect t) + padding) * (rect_h (rect t) + padding))),
        max max_w (rect_w (rect t) + padding),
        max max_h (rect_h (rect t) + padding))"

text \<open>
  The inner loop \<^verbatim>\<open>for (j = n - 1; j >= 0; j--)\<close> up to its \<^verbatim>\<open>break\<close>: the index of the
  last space into which the padded texture fits, if there is one.
\<close>

fun scan_spaces :: "blocs__rect list \<Rightarrow> nat \<Rightarrow> int \<Rightarrow> int \<Rightarrow> nat option" where
  "scan_spaces spaces 0 w h = None"
| "scan_spaces spaces (Suc j) w h =
     (let space = spaces ! j
      in if w > rect_w space \<or> h > rect_h space then scan_spaces spaces j w h
         else Some j)"

text \<open>
  The four cases that update the free spaces once the texture sits in \<open>spaces ! j\<close>. The
  list holds the \<open>n\<close> live entries of the array; the last case is the one that grows it.
\<close>

definition update_spaces :: "blocs__rect list \<Rightarrow> nat \<Rightarrow> int \<Rightarrow> int \<Rightarrow> blocs__rect list" where
  "update_spaces spaces j w h =
     (let space = spaces ! j
      in if w = rect_w space \<and> h = rect_h space then
           (let last_space = last spaces;
                n = length spaces - 1
            in if j < n then (butlast spaces)[j := last_space] else butlast spaces)
         else if h = rect_h space then
           spaces[j := space\<lparr>rect_x := rect_x space + w, rect_w := rect_w space - w\<rparr>]
         else if w = rect_w space then
           spaces[j := space\<lparr>rect_y := rect_y space + h, rect_h := rect_h space - h\<rparr>]
         else
           (let new_space = \<lparr>rect_x = rect_x space + w, rect_y = rect_y space,
                             rect_w = rect_w space - w, rect_h = h\<rparr>
            in (spaces @ [new_space])
                 [j := space\<lparr>rect_y := rect_y space + h, rect_h := rect_h space - h\<rparr>]))"

definition set_position :: "blocs__texture \<Rightarrow> blocs__rect \<Rightarrow> int \<Rightarrow> blocs__texture" where
  "set_position t space expand =
     t\<lparr>rect := (rect t)\<lparr>rect_x := rect_x space + expand, rect_y := rect_y space + expand\<rparr>\<rparr>"

definition keep :: "blocs__texture \<Rightarrow> pack_result \<Rightarrow> pack_result" where
  "keep t r = (case r of Inl (e, ts) \<Rightarrow> Inl (e, t # ts) | Inr ts \<Rightarrow> Inr (t # ts))"

text \<open>
  The placement loop over the sorted array. \<open>cap\<close> is the number of slots of \<^verbatim>\<open>spaces\<close>.
  A texture that fits no space is left as it is and the loop goes on.
\<close>

fun place_textures ::
  "int \<Rightarrow> int \<Rightarrow> int \<Rightarrow> nat \<Rightarrow> blocs__rect list \<Rightarrow> blocs__texture list \<Rightarrow> pack_result" where
  "place_textures atlas_size expand padding cap spaces [] = Inr []"
| "place_textures atlas_size expand padding cap spaces (t # ts) =
     (if \<not> (rect_w (rect t) \<le> atlas_size \<and> rect_h (rect t) \<le> atlas_size) then
        Inl (TextureLarger, t # ts)
      else
        (let w = rect_w (rect t) + padding;
             h = rect_h (rect t) + padding
         in case scan_spaces spaces (length spaces) w h of
              None \<Rightarrow> keep t (place_textures atlas_size expand padding cap spaces ts)
            | Some j \<Rightarrow>
                (let t' = set_position t (spaces ! j) expand;
                     spaces' = update_spaces spaces j w h
                 in if cap < length spaces' then Inl (SpacesOutOfBounds, t' # ts)
                    else keep t' (place_textures atlas_size expand padding cap spaces' ts))))"

definition start_space :: "int \<Rightarrow> blocs__rect" where
  "start_space atlas_size = \<lparr>rect_x = 0, rect_y = 0, rect_w = atlas_size, rect_h = atlas_size\<rparr>"

text \<open>
  In \<^verbatim>\<open>area <= size * size * 0.85\<close> the product \<^verbatim>\<open>size * size\<close> is an \<^verbatim>\<open>int\<close> operation; its result
  \<open>s\<close> and \<open>area\<close> are then converted to \<^verbatim>\<open>double\<close>, exactly. The rounded product lies within
  \<open>10\<^sup>-\<^sup>6\<close> of \<open>17 * s / 20\<close> and is exact when that is an integer, so the comparison with the
  integer \<open>area\<close> has the same outcome as over the reals.
\<close>

definition blocs__pack_atlas ::
  "blocs__texture qsort \<Rightarrow> blocs__texture list \<Rightarrow> int \<Rightarrow> int \<Rightarrow> int \<Rightarrow> pack_result" where
  "blocs__pack_atlas qsort textures atlas_size expand border =
     (let padding = expand * 2 + border;
          (area, max_w, max_h) = measure_textures padding textures (0, 0, 0);
          len = length textures
      in if \<not> (max_w \<le> atlas_size \<and> max_h \<le> atlas_size) then
           Inl (OversizedTexture, textures)
         else if \<not> (real_of_int area \<le> real_of_int (int32 (atlas_size * atlas_size)) * 0.85) then
           Inl (InsufficientSpace, textures)
         else if len < 1 then
           Inl (SpacesOutOfBounds, textures)
         else
           place_textures atlas_size expand padding len [start_space atlas_size]
             (qsort blocs__compare_area textures))"

text \<open>
  Which iterations of the placement loop reach the assignment of \<^verbatim>\<open>rect.x\<close> and \<^verbatim>\<open>rect.y\<close>:
  the code keeps no such flag, it is the trace of the loop.
\<close>

fun fit_found :: "int \<Rightarrow> blocs__rect list \<Rightarrow> blocs__texture list \<Rightarrow> bool list" where
  "fit_found padding spaces [] = []"
| "fit_found padding spaces (t # ts) =
     (let w = rect_w (rect t) + padding;
          h = rect_h (rect t) + padding
      in case scan_spaces spaces (length spaces) w h of
           None \<Rightarrow> False # fit_found padding spaces ts
         | Some j \<Rightarrow> True # fit_found padding (update_spaces spaces j w h) ts)"

definition placed ::
  "blocs__texture qsort \<Rightarrow> blocs__texture list \<Rightarrow> int \<Rightarrow> int \<Rightarrow> int \<Rightarrow> bool list" where
  "placed qsort textures atlas_size expand border =
     fit_found (expand * 2 + border) [start_space atlas_size]
       (qsort blocs__compare_area textures)"

text \<open>Two behaviours of \<^verbatim>\<open>qsort\<close> that the C standard allows.\<close>

fun insert_before :: "('a \<Rightarrow> 'a \<Rightarrow> int) \<Rightarrow> 'a \<Rightarrow> 'a list \<Rightarrow> 'a list" where
  "insert_before cmp a [] = [a]"
| "insert_before cmp a (b # bs) =
     (if cmp a b \<le> 0 then a # b # bs else b # insert_before cmp a bs)"

fun insert_after :: "('a \<Rightarrow> 'a \<Rightarrow> int) \<Rightarrow> 'a \<Rightarrow> 'a list \<Rightarrow> 'a list" where
  "insert_after cmp a [] = [a]"
| "insert_after cmp a (b # bs) =
     (if cmp a b < 0 then a # b # bs else b # insert_after cmp a bs)"

definition stable_qsort :: "'a qsort" where
  "stable_qsort cmp xs = foldr (insert_before cmp) xs []"

definition reversing_qsort :: "'a qsort" where
  "reversing_qsort cmp xs = foldr (insert_after cmp) xs []"

section \<open>Packing in the C++ implementation: \<^verbatim>\<open>atlas::pack\<close>\<close>

text \<open>
  \<^verbatim>\<open>atlas::pack\<close> runs the same pre-checks, scan and space updates. It differs in three
  places: the free spaces are a \<^verbatim>\<open>std::vector\<close>, which grows as needed; the textures are
  sorted with \<^verbatim>\<open>std::sort\<close> and the comparison \<^verbatim>\<open>a.rect.h > b.rect.h\<close>; and the assertion
  inside the loop is strict (\<^verbatim>\<open>rect.w < m_size && rect.h < m_size\<close>).
  \<^verbatim>\<open>std::sort\<close> is a parameter, as \<^verbatim>\<open>qsort\<close> is: the C++ standard promises a rearrangement
  in which no element comes after one that it has to precede, and no more.
\<close>

type_synonym 'a std_sort = "('a \<Rightarrow> 'a \<Rightarrow> bool) \<Rightarrow> 'a list \<Rightarrow> 'a list"

definition std_sort_spec :: "('a \<Rightarrow> 'a \<Rightarrow> bool) \<Rightarrow> 'a std_sort \<Rightarrow> bool" where
  "std_sort_spec precedes ss \<longleftrightarrow>
     (\<forall>xs. mset (ss precedes xs) = mset xs \<and> sorted_wrt (\<lambda>a b. \<not> precedes b a) (ss precedes xs))"

definition taller :: "blocs__texture \<Rightarrow> blocs__texture \<Rightarrow> bool" where
  "taller a b \<longleftrightarrow> rect_h (rect a) > rect_h (rect b)"

fun pack_textures ::
  "int \<Rightarrow> int \<Rightarrow> int \<Rightarrow> blocs__rect list \<Rightarrow> blocs__texture list \<Rightarrow> pack_result" where
  "pack_textures m_size m_expand padding spaces [] = Inr []"
| "pack_textures m_size m_expand padding spaces (t # ts) =
     (if \<not> (rect_w (rect t) < m_size \<and> rect_h (rect t) < m_size) then
        Inl (TextureLarger, t # ts)
      else
        (let w = rect_w (rect t) + padding;
             h = rect_h (rect t) + padding
         in case scan_spaces spaces (length spaces) w h of
              None \<Rightarrow> keep t (pack_textures m_size m_expand padding spaces ts)
            | Some i \<Rightarrow>
                keep (set_position t (spaces ! i) m_expand)
                  (pack_textures m_size m_expand padding (update_spaces spaces i w h) ts)))"

definition atlas_pack ::
  "blocs__texture std_sort \<Rightarrow> blocs__texture list \<Rightarrow> int \<Rightarrow> int \<Rightarrow> int \<Rightarrow> pack_result" where
  "atlas_pack std_sort m_textures m_size m_expand m_border =
     (let padding = m_expand * 2 + m_border;
          (area, max_w, max_h) = measure_textures padding m_textures (0, 0, 0)
      in if \<not> (max_w \<le> m_size \<and> max_h \<le> m_size) then
           Inl (OversizedTexture, m_textures)
         else if \<not> (real_of_int area \<le> real_of_int (int32 (m_size * m_size)) * 0.85) then
           Inl (InsufficientSpace, m_textures)
         else
           pack_textures m_size m_expand padding [start_space m_size] (std_sort taller m_textures))"

definition atlas_placed ::
  "blocs__texture std_sort \<Rightarrow> blocs__texture list \<Rightarrow> int \<Rightarrow> int \<Rightarrow> int \<Rightarrow> bool list" where
  "atlas_placed std_sort m_textures m_size m_expand m_border =
     fit_found (m_expand * 2 + m_border) [start_space m_size] (std_sort taller m_textures)"

text \<open>A behaviour of \<^verbatim>\<open>std::sort\<close> that the C++ standard allows (insertion sort).\<close>

fun insert_sorted :: "('a \<Rightarrow> 'a \<Rightarrow> bool) \<Rightarrow> 'a \<Rightarrow> 'a list \<Rightarrow> 'a list" where
  "insert_sorted precedes a [] = [a]"
| "insert_sorted precedes a (b # bs) =
     (if precedes b a then b # insert_sorted precedes a bs else a # b # bs)"

definition insertion_sort :: "'a std_sort" where
  "insertion_sort precedes xs = foldr (insert_sorted precedes) xs []"

section \<open>Geometry of rectangles\<close>

definition pixels :: "blocs__rect \<Rightarrow> (int \<times> int) set" where
  "pixels r = {(a, b). rect_x r \<le> a \<and> a < rect_x r + rect_w r \<and> rect_y r \<le> b \<and> b < rect_y r + rect_h r}"

definition intersects :: "blocs__rect \<Rightarrow> blocs__rect \<Rightarrow> bool" where
  "intersects r s \<longleftrightarrow>
     max (rect_x r) (rect_x s) < min (rect_x r + rect_w r) (rect_x s + rect_w s) \<and>
     max (rect_y r) (rect_y s) < min (rect_y r + rect_h r) (rect_y s + rect_h s)"

definition footprint :: "int \<Rightarrow> int \<Rightarrow> blocs__texture \<Rightarrow> blocs__rect" where
  "footprint expand border t =
     \<lparr>rect_x = rect_x (rect t) - expand, rect_y = rect_y (rect t) - expand,
      rect_w = rect_w (rect t) + (2 * expand + border),
      rect_h = rect_h (rect t) + (2 * expand + border)\<rparr>"

definition cover :: "blocs__rect list \<Rightarrow> int \<times> int \<Rightarrow> int" where
  "cover spaces p = (\<Sum>s\<leftarrow>spaces. if p \<in> pixels s then 1 else 0)"

definition fp_count :: "int \<Rightarrow> int \<Rightarrow> bool list \<Rightarrow> blocs__texture list \<Rightarrow> int \<times> int \<Rightarrow> int" where
  "fp_count expand border flags ts p =
     (\<Sum>(b, t)\<leftarrow>zip flags ts. if b \<and> p \<in> pixels (footprint expand border t) then 1 else 0)"

definition inside :: "blocs__rect \<Rightarrow> blocs__rect \<Rightarrow> bool" where
  "inside r s \<longleftrightarrow>
     rect_x s \<le> rect_x r \<and> rect_x r + rect_w r \<le> rect_x s + rect_w s \<and>
     rect_y s \<le> rect_y r \<and> rect_y r + rect_h r \<le> rect_y s + rect_h s"

text \<open>
  Byte index of the first channel of the pixel in column \<open>rect.x\<close> of the atlas row that
  the byte row \<open>y\<close> of a texture goes to: \<^verbatim>\<open>rect.x * CHANNELS + (rect.y * CHANNELS + y) * atlas_w\<close>.
\<close>

definition row_start :: "blocs__rect \<Rightarrow> int \<Rightarrow> int \<Rightarrow> int" where
  "row_start r W y = rect_x r * 4 + (rect_y r * 4 + y) * W"

text \<open>The sum that the first loop of packing accumulates.\<close>

definition padded_area :: "int \<Rightarrow> blocs__texture list \<Rightarrow> int" where
  "padded_area padding ts = (\<Sum>t\<leftarrow>ts. (rect_w (rect t) + padding) * (rect_h (rect t) + padding))"

section \<open>Compositing: \<^verbatim>\<open>blocs__set_pixels\<close> and \<^verbatim>\<open>blocs__generate_atlas\<close>\<close>

text \<open>
  \<^verbatim>\<open>blocs__clear_pixels\<close> allocates \<open>w * h * CHANNELS\<close> bytes and sets them to zero. A negative
  size does not yield a buffer.
\<close>

definition blocs__clear_pixels :: "blocs__image \<Rightarrow> blocs__image option" where
  "blocs__clear_pixels img =
     (let w = image_w img;
          h = image_h img
      in if w * h * CHANNELS < 0 then None
         else Some (img\<lparr>image_data := Some (replicate (nat (w * h * CHANNELS)) 0)\<rparr>))"

text \<open>
  The loop of \<^verbatim>\<open>blocs__set_pixels\<close> from row \<open>y\<close> on. The pointer \<^verbatim>\<open>data\<close> is the staging
  buffer together with an offset into it.
\<close>

function set_pixels_rows ::
  "byte list \<Rightarrow> int \<Rightarrow> byte list \<Rightarrow> int \<Rightarrow> blocs__rect \<Rightarrow> int \<Rightarrow> byte list option" where
  "set_pixels_rows image_bytes_now image_width data data_pos dst y =
     (if y < rect_h dst then
        (let from = y * rect_w dst;
             to = rect_x dst + (rect_y dst + y) * image_width
         in case memcpy image_bytes_now (to * CHANNELS) data (data_pos + from * CHANNELS)
                   (rect_w dst * CHANNELS) of
              None \<Rightarrow> None
            | Some image_bytes_next \<Rightarrow>
                set_pixels_rows image_bytes_next image_width data data_pos dst (y + 1))
      else Some image_bytes_now)"
  by pat_completeness auto
termination
  by (relation "measure (\<lambda>(b, iw, d, p, dst, y). nat (rect_h dst - y))") auto

declare set_pixels_rows.simps [simp del]

definition blocs__set_pixels ::
  "blocs__image \<Rightarrow> byte list \<Rightarrow> int \<Rightarrow> blocs__rect \<Rightarrow> blocs__image option" where
  "blocs__set_pixels img data data_pos dst =
     (if \<not> (rect_x dst + rect_w dst \<le> image_w img \<and> rect_y dst + rect_h dst \<le> image_h img) then None
      else
        (case image_data img of
           None \<Rightarrow> None
         | Some bytes \<Rightarrow>
             (case set_pixels_rows bytes (image_w img) data data_pos dst 0 of
                None \<Rightarrow> None
              | Some bytes' \<Rightarrow> Some (img\<lparr>image_data := Some bytes'\<rparr>))))"

text \<open>One assignment \<^verbatim>\<open>dst_buffer[i] = src_buffer[j]\<close>, with both accesses checked.\<close>

definition assign_byte :: "byte list \<Rightarrow> int \<Rightarrow> byte list \<Rightarrow> int \<Rightarrow> byte list option" where
  "assign_byte dst_buffer i src_buffer j =
     (if 0 \<le> i \<and> i < int (length dst_buffer) \<and> 0 \<le> j \<and> j < int (length src_buffer) then
        Some (dst_buffer[nat i := src_buffer ! nat j])
      else None)"

text \<open>The four assignments of one pixel, channels 0 to 3.\<close>

definition copy_pixel :: "byte list \<Rightarrow> int \<Rightarrow> byte list \<Rightarrow> int \<Rightarrow> byte list option" where
  "copy_pixel dst_buffer i src_buffer j =
     Option.bind (assign_byte dst_buffer (i + 0) src_buffer (j + 0)) (\<lambda>b0.
     Option.bind (assign_byte b0 (i + 1) src_buffer (j + 1)) (\<lambda>b1.
     Option.bind (assign_byte b1 (i + 2) src_buffer (j + 2)) (\<lambda>b2.
     assign_byte b2 (i + 3) src_buffer (j + 3))))"

text \<open>
  The clamped source coordinate
  \<^verbatim>\<open>x < 0 ? 0 : x > (rect.w - 1) * CHANNELS ? (rect.w - 1) * CHANNELS : x\<close>.
\<close>

definition clamp_src :: "int \<Rightarrow> int \<Rightarrow> int" where
  "clamp_src x w =
     (if x < 0 then 0 else if x > (w - 1) * CHANNELS then (w - 1) * CHANNELS else x)"

text \<open>
  The inner loop of the edge expansion from byte column \<open>x\<close> on, and the outer loop from
  byte row \<open>y\<close> on. \<^verbatim>\<open>src_buffer\<close> is \<open>buffer\<close> at offset \<open>src_pos\<close>.
\<close>

function expand_row ::
  "byte list \<Rightarrow> int \<Rightarrow> byte list \<Rightarrow> int \<Rightarrow> blocs__rect \<Rightarrow> int \<Rightarrow> int \<Rightarrow> int \<Rightarrow> byte list option" where
  "expand_row dst_buffer atlas_w buffer src_pos r expand y x =
     (if x < (rect_w r + expand) * CHANNELS then
        (let src_x = clamp_src x (rect_w r);
             src_y = clamp_src y (rect_h r)
         in case copy_pixel dst_buffer
                   (rect_x r * CHANNELS + x + (rect_y r * CHANNELS + y) * atlas_w)
                   buffer (src_pos + (src_x + src_y * rect_w r)) of
              None \<Rightarrow> None
            | Some dst_next \<Rightarrow>
                expand_row dst_next atlas_w buffer src_pos r expand y (x + CHANNELS))
      else Some dst_buffer)"
  by pat_completeness auto
termination
  by (relation "measure (\<lambda>(d, aw, b, p, r, e, y, x). nat ((rect_w r + e) * CHANNELS - x))")
     (auto simp: CHANNELS_def)

declare expand_row.simps [simp del]

function expand_rows ::
  "byte list \<Rightarrow> int \<Rightarrow> byte list \<Rightarrow> int \<Rightarrow> blocs__rect \<Rightarrow> int \<Rightarrow> int \<Rightarrow> byte list option" where
  "expand_rows dst_buffer atlas_w buffer src_pos r expand y =
     (if y < (rect_h r + expand) * CHANNELS then
        (case expand_row dst_buffer atlas_w buffer src_pos r expand y (- expand * CHANNELS) of
           None \<Rightarrow> None
         | Some dst_next \<Rightarrow> expand_rows dst_next atlas_w buffer src_pos r expand (y + CHANNELS))
      else Some dst_buffer)"
  by pat_completeness auto
termination
  by (relation "measure (\<lambda>(d, aw, b, p, r, e, y). nat ((rect_h r + e) * CHANNELS - y))")
     (auto simp: CHANNELS_def)

declare expand_rows.simps [simp del]

text \<open>The body of the loop of \<^verbatim>\<open>blocs__generate_atlas\<close> for one texture.\<close>

definition blit_texture ::
  "blocs__texture \<Rightarrow> byte list \<Rightarrow> blocs__image \<Rightarrow> int \<Rightarrow> blocs__image option" where
  "blit_texture texture buffer atlas_bmp expand =
     (if expand > 0 then
        (case image_data atlas_bmp of
           None \<Rightarrow> None
         | Some dst_buffer \<Rightarrow>
             (case expand_rows dst_buffer (image_w atlas_bmp) buffer (uint (buffer_index texture))
                     (rect texture) expand (- expand * CHANNELS) of
                None \<Rightarrow> None
              | Some dst_buffer' \<Rightarrow> Some (atlas_bmp\<lparr>image_data := Some dst_buffer'\<rparr>)))
      else blocs__set_pixels atlas_bmp buffer (uint (buffer_index texture)) (rect texture))"

fun blocs__generate_atlas ::
  "blocs__texture list \<Rightarrow> byte list \<Rightarrow> blocs__image \<Rightarrow> int \<Rightarrow> blocs__image option" where
  "blocs__generate_atlas [] buffer atlas_bmp expand = Some atlas_bmp"
| "blocs__generate_atlas (texture # textures) buffer atlas_bmp expand =
     (case blit_texture texture buffer atlas_bmp expand of
        None \<Rightarrow> None
      | Some atlas_next \<Rightarrow> blocs__generate_atlas textures buffer atlas_next expand)"

text \<open>
  The step of \<^verbatim>\<open>main\<close> that builds the atlas: an image of \<open>atlas_size \<times> atlas_size\<close>, cleared,
  then composited.
\<close>

definition make_atlas ::
  "blocs__texture list \<Rightarrow> byte list \<Rightarrow> int \<Rightarrow> int \<Rightarrow> blocs__image option" where
  "make_atlas textures buffer atlas_size expand =
     (case blocs__clear_pixels \<lparr>image_w = atlas_size, image_h = atlas_size, image_data = None\<rparr> of
        None \<Rightarrow> None
      | Some atlas_bmp \<Rightarrow> blocs__generate_atlas textures buffer atlas_bmp expand)"

text \<open>
  Reading a pixel: byte \<open>c\<close> of the pixel at column \<open>px\<close>, row \<open>py\<close> of a bitmap \<open>w\<close> pixels
  wide, stored row by row from byte \<open>pos\<close> of \<open>bytes\<close>.
\<close>

definition pixel_byte :: "byte list \<Rightarrow> int \<Rightarrow> int \<Rightarrow> int \<Rightarrow> int \<Rightarrow> nat \<Rightarrow> byte" where
  "pixel_byte bytes pos w px py c = bytes ! nat (pos + (py * w + px) * CHANNELS + int c)"

definition clamp :: "int \<Rightarrow> int \<Rightarrow> int \<Rightarrow> int" where
  "clamp v lo hi = (if v < lo then lo else if v > hi then hi else v)"

text \<open>The rectangle that compositing a texture writes: its rect grown by \<open>expand\<close> on each side.\<close>

definition written_rect :: "int \<Rightarrow> blocs__texture \<Rightarrow> blocs__rect" where
  "written_rect expand t =
     (let e = (if expand > 0 then expand else 0)
      in \<lparr>rect_x = rect_x (rect t) - e, rect_y = rect_y (rect t) - e,
          rect_w = rect_w (rect t) + 2 * e, rect_h = rect_h (rect t) + 2 * e\<rparr>)"

text \<open>
  Byte \<open>c\<close> of the source pixel that clamp-to-edge sampling reads for the atlas pixel
  \<open>(px, py)\<close>: the texture's own pixel at \<open>(px - rect.x, py - rect.y)\<close>, each coordinate
  clamped to the texture.
\<close>

definition source_byte :: "byte list \<Rightarrow> blocs__texture \<Rightarrow> int \<Rightarrow> int \<Rightarrow> nat \<Rightarrow> byte" where
  "source_byte buffer t px py c =
     pixel_byte buffer (uint (buffer_index t)) (rect_w (rect t))
       (clamp (px - rect_x (rect t)) 0 (rect_w (rect t) - 1))
       (clamp (py - rect_y (rect t)) 0 (rect_h (rect t) - 1)) c"

definition image_rect :: "blocs__image \<Rightarrow> blocs__rect" where
  "image_rect img = \<lparr>rect_x = 0, rect_y = 0, rect_w = image_w img, rect_h = image_h img\<rparr>"

text \<open>No two of the rectangles of a list intersect.\<close>

definition disjoint_rects :: "blocs__rect list \<Rightarrow> bool" where
  "disjoint_rects rs = sorted_wrt (\<lambda>a b. \<not> intersects a b) rs"

section \<open>Concrete inputs\<close>

text \<open>
  Texture arrays as registration leaves them (position zero, consecutive buffer offsets),
  used to run the model.
\<close>

definition scenario_textures :: "blocs__texture list" where
  "scenario_textures = [new_texture 8 16 0 0, new_texture 16 8 1 512, new_texture 8 8 2 1024]"

definition tight_textures :: "blocs__texture list" where
  "tight_textures = [new_texture 6 6 0 0, new_texture 6 6 1 144, new_texture 1 1 2 288]"

definition stepped_textures :: "blocs__texture list" where
  "stepped_textures = [new_texture 10 12 0 0, new_texture 10 11 1 480, new_texture 10 10 2 920]"

definition margin_textures :: "blocs__texture list" where
  "margin_textures = [new_texture 8 2 0 0, new_texture 1 1 1 64, new_texture 1 1 2 68]"

definition tie_textures :: "blocs__texture list" where
  "tie_textures = [new_texture 10 10 0 0, new_texture 10 10 1 400, new_texture 5 5 2 800]"

definition source_of :: "blocs__texture \<Rightarrow> int \<times> int \<times> int \<times> 32 word" where
  "source_of t = (rect_w (rect t), rect_h (rect t), name_index t, buffer_index t)"

definition at_position :: "int \<Rightarrow> int \<Rightarrow> blocs__texture \<Rightarrow> blocs__texture" where
  "at_position px py t = t\<lparr>rect := (rect t)\<lparr>rect_x := px, rect_y := py\<rparr>\<rparr>"

definition scenario_packed :: "blocs__texture list" where
  "scenario_packed =
     [at_position 0 0 (new_texture 8 16 0 0), at_position 8 0 (new_texture 16 8 1 512),
      at_position 24 0 (new_texture 8 8 2 1024)]"

definition margin_packed :: "blocs__texture list" where
  "margin_packed =
     [at_position 1 1 (new_texture 8 2 0 0), at_position 1 5 (new_texture 1 1 1 64),
      at_position 4 5 (new_texture 1 1 2 68)]"

definition tight_packed :: "blocs__texture list" where
  "tight_packed =
     [at_position 0 0 (new_texture 6 6 0 0), at_position 0 0 (new_texture 6 6 1 144),
      at_position 6 0 (new_texture 1 1 2 288)]"

definition stepped_packed :: "blocs__texture list" where
  "stepped_packed =
     [at_position 0 0 (new_texture 10 12 0 0), at_position 10 0 (new_texture 10 11 1 480),
      at_position 20 0 (new_texture 10 10 2 920)]"

definition tie_packed_reversed :: "blocs__texture list" where
  "tie_packed_reversed =
     [at_position 0 0 (new_texture 10 10 1 400), at_position 10 0 (new_texture 10 10 0 0),
      at_position 20 0 (new_texture 5 5 2 800)]"

definition example_images :: "blocs__image list" where
  "example_images =
     [\<lparr>image_w = 1, image_h = 1, image_data = Some [1, 2, 3, 4]\<rparr>,
      \<lparr>image_w = 2, image_h = 1, image_data = Some [5, 6, 7, 8, 9, 10, 11, 12]\<rparr>,
      \<lparr>image_w = 1, image_h = 2, image_data = Some [13, 14, 15, 16, 17, 18, 19, 20]\<rparr>]"

definition example_staging :: staging where
  "example_staging = (replicate 3 (new_texture 0 0 0 0), replicate 64 0, 0)"

definition row_textures :: "blocs__texture list" where
  "row_textures = [new_texture 2 1 0 0, new_texture 1 1 1 8, new_texture 1 1 2 12]"

definition row_packed :: "blocs__texture list" where
  "row_packed =
     [at_position 1 1 (new_texture 2 1 0 0), at_position 5 1 (new_texture 1 1 1 8),
      at_position 8 1 (new_texture 1 1 2 12)]"

definition square_textures :: "blocs__texture list" where
  "square_textures = [new_texture 2 2 0 0, new_texture 1 1 1 16, new_texture 1 1 2 20]"

definition square_packed :: "blocs__texture list" where
  "square_packed =
     [at_position 0 0 (new_texture 2 2 0 0), at_position 2 0 (new_texture 1 1 1 16),
      at_position 3 0 (new_texture 1 1 2 20)]"

definition example_buffer :: "byte list" where
  "example_buffer =
     [1, 2, 3, 4, 5, 6, 7, 8, 9, 10, 11, 12, 13, 14, 15, 16, 17, 18, 19, 20, 21, 22, 23, 24]"

text \<open>
  128 images of \<open>1 \<times> 1\<close>, registered in order: 4 bytes each, at offsets 0, 4, 8 and so on.
\<close>

definition crowded_textures :: "blocs__texture list" where
  "crowded_textures = map (\<lambda>i. new_texture 1 1 (int i) (word_of_nat (4 * i))) [0..<128]"

text \<open>
  A staging buffer for \<open>tight_textures\<close>: every byte of the first \<open>6 \<times> 6\<close> image is 1, every
  byte of the second is 2, the \<open>1 \<times> 1\<close> image is all 3.
\<close>

definition tight_buffer :: "byte list" where
  "tight_buffer = replicate 144 1 @ replicate 144 2 @ replicate 4 3"

section \<open>Properties of registration\<close>

lemma memcpy_length: "memcpy dst d src s n = Some r \<Longrightarrow> length r = length dst"
  by (auto simp: memcpy_def split: if_splits)

lemma splice_nth:
  assumes "D + N \<le> length dst" and "S + N \<le> length src" and "k < length dst"
  shows "(take D dst @ take N (drop S src) @ drop (D + N) dst) ! k =
           (if D \<le> k \<and> k < D + N then src ! (S + (k - D)) else dst ! k)"
proof -
  have l1: "length (take D dst) = D" using assms(1) by simp
  have l2: "length (take N (drop S src)) = N" using assms(2) by simp
  consider "k < D" | "D \<le> k" "k < D + N" | "D + N \<le> k" by linarith
  then show ?thesis
  proof cases
    case 1
    then show ?thesis using assms by (simp add: nth_append)
  next
    case 2
    then have kd: "k - D < N" "\<not> k < D" by linarith+
    from 2 have "(take D dst @ take N (drop S src) @ drop (D + N) dst) ! k =
        (take N (drop S src) @ drop (D + N) dst) ! (k - D)"
      using assms by (simp add: nth_append)
    also have "\<dots> = take N (drop S src) ! (k - D)"
      using kd assms by (simp add: nth_append)
    also have "\<dots> = src ! (S + (k - D))"
      using kd assms(2) by simp
    finally show ?thesis using 2 by simp
  next
    case 3
    then have kd: "\<not> k - D < N" "\<not> k < D" "D + N + (k - D - N) = k" by linarith+
    from 3 have "(take D dst @ take N (drop S src) @ drop (D + N) dst) ! k =
        (take N (drop S src) @ drop (D + N) dst) ! (k - D)"
      using assms by (simp add: nth_append)
    also have "\<dots> = drop (D + N) dst ! (k - D - N)"
      using kd assms by (simp add: nth_append)
    also have "\<dots> = dst ! k"
      using kd assms(1,3) by simp
    finally show ?thesis using 3 by simp
  qed
qed

lemma memcpy_nth:
  assumes "memcpy dst d src s n = Some r" and "k < length dst"
  shows "r ! k = (if d \<le> int k \<and> int k < d + n then src ! nat (s + (int k - d)) else dst ! k)"
proof -
  from assms(1) have ok: "0 \<le> n" "0 \<le> d" "d + n \<le> int (length dst)" "0 \<le> s" "s + n \<le> int (length src)"
    and r: "r = take (nat d) dst @ take (nat n) (drop (nat s) src) @ drop (nat (d + n)) dst"
    by (auto simp: memcpy_def split: if_splits)
  have dn: "nat (d + n) = nat d + nat n" using ok by linarith
  have "r ! k = (if nat d \<le> k \<and> k < nat d + nat n then src ! (nat s + (k - nat d)) else dst ! k)"
    unfolding r dn using ok assms(2) by (intro splice_nth) linarith+
  moreover have "nat d \<le> k \<and> k < nat d + nat n \<longleftrightarrow> d \<le> int k \<and> int k < d + n"
    using ok by linarith
  moreover have "d \<le> int k \<Longrightarrow> nat s + (k - nat d) = nat (s + (int k - d))"
    using ok by linarith
  ultimately show ?thesis by auto
qed

lemma add_texture_Some:
  assumes "blocs__add_texture textures index buffer pos img name_idx = Some (textures', buffer', pos')"
  shows "textures' = textures[index := new_texture (image_w img) (image_h img) name_idx pos]"
    and "pos' = pos + word_of_int (image_w img * image_h img * CHANNELS)"
    and "index < length textures"
    and "length buffer' = length buffer"
    and "uint pos + uint (word_of_int (image_w img * image_h img * CHANNELS) :: 32 word) \<le> int (length buffer)"
    and "\<exists>data. image_data img = Some data \<and> 
           uint (word_of_int (image_w img * image_h img * CHANNELS) :: 32 word) \<le> int (length data)"
proof -
  let ?n = "word_of_int (image_w img * image_h img * CHANNELS) :: 32 word"
  from assms obtain data where d: "image_data img = Some data"
    and i: "index < length textures"
    and m: "memcpy buffer (uint pos) data 0 (uint ?n) = Some buffer'"
    and t: "textures' = textures[index := new_texture (image_w img) (image_h img) name_idx pos]"
    and p: "pos' = pos + ?n"
    unfolding blocs__add_texture_def Let_def
    by (auto split: option.splits if_splits)
  show "textures' = textures[index := new_texture (image_w img) (image_h img) name_idx pos]" by (rule t)
  show "pos' = pos + ?n" by (rule p)
  show "index < length textures" by (rule i)
  show "length buffer' = length buffer" using m by (rule memcpy_length)
  show "uint pos + uint ?n \<le> int (length buffer)"
    using m by (auto simp only: memcpy_def split: if_splits)
  show "\<exists>data. image_data img = Some data \<and> uint ?n \<le> int (length data)"
    using m d by (auto simp only: memcpy_def split: if_splits)
qed

lemma add_textures_offsets_aux:
  assumes "add_textures atlas_size demo images i (textures, buffer, pos) = Some (textures', buffer', pos')"
  shows "length textures' = length textures \<and> length buffer' = length buffer \<and>
         (images \<noteq> [] \<longrightarrow> i + length images \<le> length textures) \<and>
         (\<forall>k<i. textures' ! k = textures ! k) \<and>
         (\<forall>k<length images. textures' ! (i + k) =
            new_texture (image_w (images ! k)) (image_h (images ! k)) (if demo then 0 else int (i + k))
              (pos + word_of_int (sum_list (map image_bytes (take k images))))) \<and>
         pos' = pos + word_of_int (sum_list (map image_bytes images))"
  using assms
proof (induction images arbitrary: i textures buffer pos)
  case Nil
  then show ?case by simp
next
  case (Cons img images)
  from Cons.prems obtain st where st: "blocs__add_texture textures i buffer pos img (if demo then 0 else int i) = Some st"
    and rest: "add_textures atlas_size demo images (Suc i) st = Some (textures', buffer', pos')"
    by (auto split: if_splits option.splits)
  obtain textures1 buffer1 pos1 where st1: "st = (textures1, buffer1, pos1)" by (cases st)
  note a = add_texture_Some [OF st [unfolded st1]]
  note ih = Cons.IH [OF rest [unfolded st1]]
  have t1: "textures1 = textures[i := new_texture (image_w img) (image_h img) (if demo then 0 else int i) pos]"
    using a(1) .
  have p1: "pos1 = pos + word_of_int (image_bytes img)" using a(2) by (simp add: image_bytes_def)
  have len: "length textures1 = length textures" using t1 by simp
  have head: "textures' ! i = new_texture (image_w img) (image_h img) (if demo then 0 else int i) pos"
    using ih a(3) t1 by simp
  have old: "\<forall>k<i. textures' ! k = textures ! k"
    using ih t1 by simp
  have new: "textures' ! (i + k) =
      new_texture (image_w ((img # images) ! k)) (image_h ((img # images) ! k)) (if demo then 0 else int (i + k))
        (pos + word_of_int (sum_list (map image_bytes (take k (img # images)))))"
    if k: "k < length (img # images)" for k
  proof (cases k)
    case 0
    then show ?thesis using head by simp
  next
    case (Suc k')
    then have "k' < length images" using k by simp
    then have "textures' ! (Suc i + k') =
      new_texture (image_w (images ! k')) (image_h (images ! k')) (if demo then 0 else int (Suc i + k'))
        (pos1 + word_of_int (sum_list (map image_bytes (take k' images))))"
      using ih by blast
    then show ?thesis using Suc by (simp add: p1 add.assoc)
  qed
  have bound: "Suc i + length images \<le> length textures"
    using ih a(3) len by (cases "images = []") auto
  show ?case
    using ih len a(4) old new bound by (simp add: p1 add.assoc)
qed

lemma uint_add_no_wrap:
  fixes a b :: "32 word"
  assumes "uint a + uint b \<le> int n" and "n < 2 ^ 32"
  shows "uint (a + b) = uint a + uint b"
proof -
  have "uint a + uint b < 2 ^ LENGTH(32)" using assms by simp
  then show ?thesis by (simp only: uint_add_lem)
qed

lemma stored_bytes_eq:
  "0 \<le> image_bytes img \<Longrightarrow> image_bytes img < 2 ^ 32 \<Longrightarrow> stored_bytes img = image_bytes img"
  by (simp add: stored_bytes_def uint_word_of_int)

lemma add_textures_no_wrap_aux:
  assumes "add_textures atlas_size demo images i (textures, buffer, pos) = Some (textures', buffer', pos')"
    and "length buffer < 2 ^ 32"
  shows "(\<forall>k<length images. uint (buffer_index (textures' ! (i + k))) =
            uint pos + sum_list (map stored_bytes (take k images))) \<and>
         uint pos' = uint pos + sum_list (map stored_bytes images) \<and>
         (images \<noteq> [] \<longrightarrow> uint pos' \<le> int (length buffer))"
  using assms
proof (induction images arbitrary: i textures buffer pos)
  case Nil
  then show ?case by simp
next
  case (Cons img images)
  from Cons.prems obtain st where st: "blocs__add_texture textures i buffer pos img (if demo then 0 else int i) = Some st"
    and rest: "add_textures atlas_size demo images (Suc i) st = Some (textures', buffer', pos')"
    by (auto split: if_splits option.splits)
  obtain textures1 buffer1 pos1 where st1: "st = (textures1, buffer1, pos1)" by (cases st)
  note a = add_texture_Some [OF st [unfolded st1]]
  have len1: "length buffer1 < 2 ^ 32" using a(4) Cons.prems(2) by simp
  note ih = Cons.IH [OF rest [unfolded st1] len1]
  note aux = add_textures_offsets_aux [OF Cons.prems(1)]
  have p1: "pos1 = pos + word_of_int (image_bytes img)" using a(2) by (simp add: image_bytes_def)
  have bound: "uint pos + uint (word_of_int (image_bytes img) :: 32 word) \<le> int (length buffer)"
    using a(5) by (simp add: image_bytes_def)
  have u1: "uint pos1 = uint pos + stored_bytes img"
    unfolding p1 stored_bytes_def using bound Cons.prems(2) by (rule uint_add_no_wrap)
  have head: "uint (buffer_index (textures' ! i)) = uint pos"
  proof -
    have "textures' ! (i + 0) = new_texture (image_w ((img # images) ! 0)) (image_h ((img # images) ! 0))
        (if demo then 0 else int (i + 0)) (pos + word_of_int (sum_list (map image_bytes (take 0 (img # images)))))"
      using aux by blast
    then show ?thesis by (simp add: new_texture_def)
  qed
  have new: "uint (buffer_index (textures' ! (i + k))) =
      uint pos + sum_list (map stored_bytes (take k (img # images)))"
    if k: "k < length (img # images)" for k
  proof (cases k)
    case 0
    then show ?thesis using head by simp
  next
    case (Suc k')
    then have "k' < length images" using k by simp
    then have "uint (buffer_index (textures' ! (Suc i + k'))) =
        uint pos1 + sum_list (map stored_bytes (take k' images))"
      using ih by blast
    then show ?thesis using Suc by (simp add: u1)
  qed
  have fin: "uint pos' = uint pos + sum_list (map stored_bytes (img # images))"
    using ih by (simp add: u1)
  have le: "uint pos' \<le> int (length buffer)"
  proof (cases "images = []")
    case True
    then have "pos' = pos1" using rest st1 by simp
    then show ?thesis using u1 bound by (simp add: stored_bytes_def)
  next
    case False
    then show ?thesis using ih a(4) by simp
  qed
  show ?case using new fin le by blast
qed


section \<open>Properties of packing\<close>

lemma int32_in_range: "- (2 ^ 31) \<le> v \<Longrightarrow> v < 2 ^ 31 \<Longrightarrow> int32 v = v"
  by (simp add: int32_def)

lemma int32_add_left: "int32 (int32 a + b) = int32 (a + b)"
proof -
  have "((a + 2 ^ 31) mod 2 ^ 32 + b) mod 2 ^ 32 = (a + 2 ^ 31 + b) mod (2 ^ 32 :: int)"
    by (rule mod_add_left_eq)
  then show ?thesis by (simp add: int32_def algebra_simps)
qed

lemma int32_add_right: "int32 (a + int32 b) = int32 (a + b)"
  using int32_add_left [of b a] by (simp add: add.commute)

lemma int32_idem: "int32 (int32 v) = int32 v"
  using int32_add_left [of v 0] by simp

lemma measure_textures_area:
  "int32 area = area \<Longrightarrow>
   fst (measure_textures padding ts (area, max_w, max_h)) =
     int32 (area + (\<Sum>t\<leftarrow>ts. (rect_w (rect t) + padding) * (rect_h (rect t) + padding)))"
proof (induction ts arbitrary: area max_w max_h)
  case Nil
  then show ?case by simp
next
  case (Cons t ts)
  let ?p = "(rect_w (rect t) + padding) * (rect_h (rect t) + padding)"
  let ?rest = "\<Sum>t\<leftarrow>ts. (rect_w (rect t) + padding) * (rect_h (rect t) + padding)"
  have "fst (measure_textures padding (t # ts) (area, max_w, max_h)) =
      int32 (int32 (area + int32 ?p) + ?rest)"
    by (simp add: Cons.IH int32_idem)
  also have "\<dots> = int32 (area + ?p + ?rest)"
    by (simp add: int32_add_left int32_add_right)
  finally show ?case by (simp add: add.assoc)
qed

lemma measure_textures_max_w:
  "fst (snd (measure_textures padding ts (area, max_w, max_h))) \<le> bound \<longleftrightarrow>
     max_w \<le> bound \<and> (\<forall>t\<in>set ts. rect_w (rect t) + padding \<le> bound)"
  by (induction ts arbitrary: area max_w max_h) auto

lemma measure_textures_max_h:
  "snd (snd (measure_textures padding ts (area, max_w, max_h))) \<le> bound \<longleftrightarrow>
     max_h \<le> bound \<and> (\<forall>t\<in>set ts. rect_h (rect t) + padding \<le> bound)"
  by (induction ts arbitrary: area max_w max_h) auto

lemma pack_atlas_unfold:
  "blocs__pack_atlas qs textures atlas_size expand border =
     (if \<not> (0 \<le> atlas_size \<and> (\<forall>t\<in>set textures. rect_w (rect t) + (expand * 2 + border) \<le> atlas_size \<and>
            rect_h (rect t) + (expand * 2 + border) \<le> atlas_size)) then
        Inl (OversizedTexture, textures)
      else if \<not> (real_of_int (int32 (padded_area (expand * 2 + border) textures)) \<le>
                  real_of_int (int32 (atlas_size * atlas_size)) * 0.85) then
        Inl (InsufficientSpace, textures)
      else if textures = [] then Inl (SpacesOutOfBounds, textures)
      else place_textures atlas_size expand (expand * 2 + border) (length textures)
             [start_space atlas_size] (qs blocs__compare_area textures))"
proof -
  obtain area max_w max_h where m: "measure_textures (expand * 2 + border) textures (0, 0, 0) = (area, max_w, max_h)"
    by (metis prod_cases3)
  have a: "area = int32 (padded_area (expand * 2 + border) textures)"
    using measure_textures_area [of 0 "expand * 2 + border" textures 0 0] m
    by (simp add: padded_area_def int32_def)
  have w: "max_w \<le> atlas_size \<longleftrightarrow> 0 \<le> atlas_size \<and> (\<forall>t\<in>set textures. rect_w (rect t) + (expand * 2 + border) \<le> atlas_size)"
    using measure_textures_max_w [of "expand * 2 + border" textures 0 0 0 atlas_size] m by simp
  have h: "max_h \<le> atlas_size \<longleftrightarrow> 0 \<le> atlas_size \<and> (\<forall>t\<in>set textures. rect_h (rect t) + (expand * 2 + border) \<le> atlas_size)"
    using measure_textures_max_h [of "expand * 2 + border" textures 0 0 0 atlas_size] m by simp
  have l: "length textures < 1 \<longleftrightarrow> textures = []" by auto
  show ?thesis
    unfolding blocs__pack_atlas_def Let_def m prod.case a w h l by auto
qed

text \<open>
  Where the sum of the padded areas and \<open>atlas_size\<^sup>2\<close> stay in the range of \<^verbatim>\<open>int\<close>, the two
  pre-checks fail exactly when they should, and hand back the array as it was passed in.
\<close>

lemma precheck_failures_in_range:
  assumes "- (2 ^ 31) \<le> padded_area (2 * expand + border) textures"
    and "padded_area (2 * expand + border) textures < 2 ^ 31"
    and "atlas_size * atlas_size < 2 ^ 31"
  shows
  "((\<exists>t\<in>set textures. rect_w (rect t) + (2 * expand + border) > atlas_size \<or>
                      rect_h (rect t) + (2 * expand + border) > atlas_size) \<longrightarrow>
      blocs__pack_atlas qs textures atlas_size expand border = Inl (OversizedTexture, textures)) \<and>
   (0 \<le> atlas_size \<and>
    \<not> (\<exists>t\<in>set textures. rect_w (rect t) + (2 * expand + border) > atlas_size \<or>
                      rect_h (rect t) + (2 * expand + border) > atlas_size) \<and>
    real_of_int (padded_area (2 * expand + border) textures) > 0.85 * (real_of_int atlas_size)\<^sup>2 \<longrightarrow>
      blocs__pack_atlas qs textures atlas_size expand border = Inl (InsufficientSpace, textures))"
proof -
  have p: "2 * expand + border = expand * 2 + border" by simp
  have a: "int32 (padded_area (expand * 2 + border) textures) = padded_area (expand * 2 + border) textures"
    using assms(1,2) unfolding p by (rule int32_in_range)
  have "(0 :: int) \<le> 2 ^ 31" by simp
  then have "- (2 ^ 31) \<le> atlas_size * atlas_size"
    using zero_le_square [of atlas_size] by linarith
  then have s: "int32 (atlas_size * atlas_size) = atlas_size * atlas_size"
    using assms(3) by (rule int32_in_range)
  show ?thesis
    unfolding p pack_atlas_unfold a s
    by (auto simp: power2_eq_square not_le not_less algebra_simps)
qed

lemma intersects_iff: "intersects r s \<longleftrightarrow> pixels r \<inter> pixels s \<noteq> {}"
proof
  assume "intersects r s"
  then have "(max (rect_x r) (rect_x s), max (rect_y r) (rect_y s)) \<in> pixels r \<inter> pixels s"
    by (auto simp: intersects_def pixels_def)
  then show "pixels r \<inter> pixels s \<noteq> {}" by blast
next
  assume "pixels r \<inter> pixels s \<noteq> {}"
  then obtain a b where "(a, b) \<in> pixels r" "(a, b) \<in> pixels s" by auto
  then show "intersects r s" by (auto simp: intersects_def pixels_def)
qed

lemma scan_spaces_Some:
  "scan_spaces spaces n w h = Some j \<Longrightarrow>
     j < n \<and> w \<le> rect_w (spaces ! j) \<and> h \<le> rect_h (spaces ! j)"
  by (induction n) (auto simp: Let_def split: if_splits)

lemma scan_spaces_None:
  "scan_spaces spaces n w h = None \<longleftrightarrow>
     (\<forall>k<n. w > rect_w (spaces ! k) \<or> h > rect_h (spaces ! k))"
  by (induction n) (auto simp: Let_def less_Suc_eq)

lemma sum_list_map_update:
  fixes f :: "'a \<Rightarrow> int"
  shows "j < length xs \<Longrightarrow> sum_list (map f (xs[j := v])) = sum_list (map f xs) - f (xs ! j) + f v"
  by (induction xs arbitrary: j) (auto split: nat.splits)

lemma sum_list_map_butlast:
  fixes f :: "'a \<Rightarrow> int"
  shows "xs \<noteq> [] \<Longrightarrow> sum_list (map f (butlast xs)) = sum_list (map f xs) - f (last xs)"
  by (induction xs) auto

lemma sum_list_update_spaces:
  fixes f :: "blocs__rect \<Rightarrow> int"
  assumes "j < length spaces"
  shows "sum_list (map f (update_spaces spaces j w h)) =
     sum_list (map f spaces) - f (spaces ! j) +
       (let space = spaces ! j
        in if w = rect_w space \<and> h = rect_h space then 0
           else if h = rect_h space then f (space\<lparr>rect_x := rect_x space + w, rect_w := rect_w space - w\<rparr>)
           else if w = rect_w space then f (space\<lparr>rect_y := rect_y space + h, rect_h := rect_h space - h\<rparr>)
           else f \<lparr>rect_x = rect_x space + w, rect_y = rect_y space, rect_w = rect_w space - w, rect_h = h\<rparr>
              + f (space\<lparr>rect_y := rect_y space + h, rect_h := rect_h space - h\<rparr>))"
proof -
  have ne: "spaces \<noteq> []" using assms by auto
  have exact: "sum_list (map f (if j < length spaces - 1 then (butlast spaces)[j := last spaces] else butlast spaces))
      = sum_list (map f spaces) - f (spaces ! j)"
  proof (cases "j < length spaces - 1")
    case True
    then show ?thesis
      by (simp add: sum_list_map_update sum_list_map_butlast ne nth_butlast)
  next
    case False
    then have "j = length spaces - 1" using assms by simp
    then show ?thesis using False
      by (simp add: sum_list_map_butlast ne last_conv_nth)
  qed
  show ?thesis
    using assms exact
    by (simp add: update_spaces_def Let_def sum_list_map_update nth_append)
qed

lemma cover_update_spaces:
  assumes "j < length spaces"
    and "0 \<le> w" and "w \<le> rect_w (spaces ! j)"
    and "0 \<le> h" and "h \<le> rect_h (spaces ! j)"
  shows "cover (update_spaces spaces j w h) p +
           (if p \<in> pixels \<lparr>rect_x = rect_x (spaces ! j), rect_y = rect_y (spaces ! j), rect_w = w, rect_h = h\<rparr> then 1 else 0)
         \<le> cover spaces p"
proof -
  obtain a b where p: "p = (a, b)" by (cases p)
  show ?thesis
    unfolding cover_def sum_list_update_spaces [OF assms(1)] 
    using assms(2-5) by (auto simp: Let_def pixels_def p)
qed

lemma keep_Inr: "keep t r = Inr ts' \<longleftrightarrow> (\<exists>r'. r = Inr r' \<and> ts' = t # r')"
  by (auto simp: keep_def split: sum.splits prod.splits)

lemma keep_Inl: "keep t r = Inl (e, ts') \<longleftrightarrow> (\<exists>r'. r = Inl (e, r') \<and> ts' = t # r')"
  by (auto simp: keep_def split: sum.splits prod.splits)

lemma footprint_set_position:
  "footprint expand border (set_position t space expand) =
     \<lparr>rect_x = rect_x space, rect_y = rect_y space,
      rect_w = rect_w (rect t) + (2 * expand + border),
      rect_h = rect_h (rect t) + (2 * expand + border)\<rparr>"
  by (simp add: footprint_def set_position_def)

lemma length_fit_found: "length (fit_found padding spaces ts) = length ts"
  by (induction ts arbitrary: spaces) (auto simp: Let_def split: option.splits)

lemma length_place_textures:
  "place_textures atlas_size expand padding cap spaces ts = Inr ts' \<Longrightarrow> length ts' = length ts"
  by (induction ts arbitrary: spaces ts')
     (auto simp: Let_def keep_Inr split: option.splits if_splits)

lemma cover_nonneg: "0 \<le> cover spaces p"
  unfolding cover_def by (rule sum_list_nonneg) auto

lemma place_textures_cover:
  assumes "\<forall>t\<in>set ts. 0 \<le> rect_w (rect t) + padding \<and> 0 \<le> rect_h (rect t) + padding"
    and "padding = 2 * expand + border"
    and "place_textures atlas_size expand padding cap spaces ts = Inr ts'"
  shows "fp_count expand border (fit_found padding spaces ts) ts' p \<le> cover spaces p"
  using assms
proof (induction ts arbitrary: spaces ts')
  case Nil
  then show ?case by (auto simp: fp_count_def cover_nonneg)
next
  case (Cons t ts)
  let ?w = "rect_w (rect t) + padding" and ?h = "rect_h (rect t) + padding"
  have nonneg: "0 \<le> ?w" "0 \<le> ?h" using Cons.prems(1) by auto
  have rest: "\<forall>t\<in>set ts. 0 \<le> rect_w (rect t) + padding \<and> 0 \<le> rect_h (rect t) + padding"
    using Cons.prems(1) by auto
  show ?case
  proof (cases "scan_spaces spaces (length spaces) ?w ?h")
    case None
    with Cons.prems(3) obtain r' where r: "place_textures atlas_size expand padding cap spaces ts = Inr r'"
      and ts': "ts' = t # r'"
      by (auto simp: Let_def keep_Inr split: if_splits)
    have "fp_count expand border (fit_found padding spaces ts) r' p \<le> cover spaces p"
      by (rule Cons.IH [OF rest Cons.prems(2) r])
    then show ?thesis using None ts' by (simp add: fp_count_def Let_def)
  next
    case (Some j)
    let ?spaces' = "update_spaces spaces j ?w ?h"
    let ?t' = "set_position t (spaces ! j) expand"
    from Some Cons.prems(3) obtain r' where r: "place_textures atlas_size expand padding cap ?spaces' ts = Inr r'"
      and ts': "ts' = ?t' # r'"
      by (auto simp: Let_def keep_Inr split: if_splits)
    have j: "j < length spaces" "?w \<le> rect_w (spaces ! j)" "?h \<le> rect_h (spaces ! j)"
      using scan_spaces_Some [OF Some] by auto
    have ih: "fp_count expand border (fit_found padding ?spaces' ts) r' p \<le> cover ?spaces' p"
      by (rule Cons.IH [OF rest Cons.prems(2) r])
    have step: "cover ?spaces' p +
        (if p \<in> pixels (footprint expand border ?t') then 1 else 0) \<le> cover spaces p"
      using cover_update_spaces [OF j(1) nonneg(1) j(2) nonneg(2) j(3), of p]
      by (simp add: footprint_set_position Cons.prems(2))
    show ?thesis using Some ts' ih step by (simp add: fp_count_def Let_def)
  qed
qed

lemma nth_le_sum_list_int:
  fixes xs :: "int list"
  shows "\<forall>x\<in>set xs. 0 \<le> x \<Longrightarrow> k < length xs \<Longrightarrow> xs ! k \<le> sum_list xs"
proof (induction xs arbitrary: k)
  case Nil
  then show ?case by simp
next
  case (Cons a xs)
  then show ?case
    by (cases k) (auto simp: sum_list_nonneg intro: order_trans [OF Cons.IH])
qed

lemma two_le_sum_list_int:
  fixes xs :: "int list"
  shows "\<forall>x\<in>set xs. 0 \<le> x \<Longrightarrow> i < j \<Longrightarrow> j < length xs \<Longrightarrow> xs ! i + xs ! j \<le> sum_list xs"
proof (induction xs arbitrary: i j)
  case Nil
  then show ?case by simp
next
  case (Cons a xs)
  obtain j' where j': "j = Suc j'" using Cons.prems(2) by (cases j) auto
  show ?case
  proof (cases i)
    case 0
    have "xs ! j' \<le> sum_list xs"
      using Cons.prems j' by (intro nth_le_sum_list_int) auto
    then show ?thesis using 0 j' by simp
  next
    case (Suc i')
    have "xs ! i' + xs ! j' \<le> sum_list xs"
      using Cons.prems j' Suc by (intro Cons.IH) auto
    moreover have "0 \<le> a" using Cons.prems(1) by simp
    ultimately show ?thesis using Suc j' by simp
  qed
qed

lemma fp_count_two:
  assumes "i < j" and "j < length ts" and "length flags = length ts"
    and "flags ! i" and "flags ! j"
    and "p \<in> pixels (footprint expand border (ts ! i))"
    and "p \<in> pixels (footprint expand border (ts ! j))"
  shows "2 \<le> fp_count expand border flags ts p"
proof -
  let ?xs = "map (\<lambda>(b, t). if b \<and> p \<in> pixels (footprint expand border t) then 1 else (0::int)) (zip flags ts)"
  have "?xs ! i + ?xs ! j \<le> sum_list ?xs"
    using assms(1-3) by (intro two_le_sum_list_int) auto
  moreover have "?xs ! i = 1" "?xs ! j = 1" using assms by auto
  ultimately show ?thesis by (simp add: fp_count_def)
qed

lemma update_spaces_inside:
  assumes "j < length spaces"
    and "0 \<le> w" and "w \<le> rect_w (spaces ! j)"
    and "0 \<le> h" and "h \<le> rect_h (spaces ! j)"
    and "\<forall>s\<in>set spaces. inside s A"
    and "s \<in> set (update_spaces spaces j w h)"
  shows "inside s A"
proof -
  have sp: "inside (spaces ! j) A" using assms(1,6) by simp
  have l: "inside (last spaces) A" using assms(1,6) by (metis last_in_set length_0_conv not_less_zero)
  have b: "\<And>s. s \<in> set (butlast spaces) \<Longrightarrow> inside s A"
    using assms(6) by (auto dest: in_set_butlastD)
  show ?thesis
    using assms(2-7) sp l b
    by (auto simp: update_spaces_def Let_def inside_def split: if_splits
             dest!: set_update_subset_insert [THEN subsetD])
qed

lemma mset_insert_before: "mset (insert_before cmp a ys) = add_mset a (mset ys)"
  by (induction ys) auto

lemma mset_insert_after: "mset (insert_after cmp a ys) = add_mset a (mset ys)"
  by (induction ys) auto

lemma set_insert_before: "set (insert_before cmp a ys) = insert a (set ys)"
  by (induction ys) auto

lemma set_insert_after: "set (insert_after cmp a ys) = insert a (set ys)"
  by (induction ys) auto

lemma sorted_insert_before:
  "sorted_wrt (\<lambda>a b. blocs__compare_area a b \<le> 0) ys \<Longrightarrow>
   sorted_wrt (\<lambda>a b. blocs__compare_area a b \<le> 0) (insert_before blocs__compare_area a ys)"
proof (induction ys)
  case Nil
  then show ?case by simp
next
  case (Cons b bs)
  then show ?case by (auto simp: blocs__compare_area_def set_insert_before)
qed

lemma sorted_insert_after:
  "sorted_wrt (\<lambda>a b. blocs__compare_area a b \<le> 0) ys \<Longrightarrow>
   sorted_wrt (\<lambda>a b. blocs__compare_area a b \<le> 0) (insert_after blocs__compare_area a ys)"
proof (induction ys)
  case Nil
  then show ?case by simp
next
  case (Cons b bs)
  then show ?case by (auto simp: blocs__compare_area_def set_insert_after)
qed

lemma stable_qsort_spec: "qsort_spec blocs__compare_area stable_qsort"
proof -
  have "mset (stable_qsort cmp xs) = mset xs" for cmp :: "blocs__texture \<Rightarrow> blocs__texture \<Rightarrow> int" and xs
    unfolding stable_qsort_def by (induction xs) (simp_all add: mset_insert_before)
  moreover have "sorted_wrt (\<lambda>a b. blocs__compare_area a b \<le> 0) (stable_qsort blocs__compare_area xs)" for xs
    unfolding stable_qsort_def by (induction xs) (simp_all add: sorted_insert_before)
  ultimately show ?thesis by (simp add: qsort_spec_def)
qed

lemma reversing_qsort_spec: "qsort_spec blocs__compare_area reversing_qsort"
proof -
  have "mset (reversing_qsort cmp xs) = mset xs" for cmp :: "blocs__texture \<Rightarrow> blocs__texture \<Rightarrow> int" and xs
    unfolding reversing_qsort_def by (induction xs) (simp_all add: mset_insert_after)
  moreover have "sorted_wrt (\<lambda>a b. blocs__compare_area a b \<le> 0) (reversing_qsort blocs__compare_area xs)" for xs
    unfolding reversing_qsort_def by (induction xs) (simp_all add: sorted_insert_after)
  ultimately show ?thesis by (simp add: qsort_spec_def)
qed

lemma qsort_spec_set:
  "qsort_spec blocs__compare_area qs \<Longrightarrow> set (qs blocs__compare_area textures) = set textures"
  by (metis qsort_spec_def mset_eq_setD)

lemma qsort_spec_length:
  "qsort_spec blocs__compare_area qs \<Longrightarrow> length (qs blocs__compare_area textures) = length textures"
  by (metis qsort_spec_def mset_eq_length)

lemma pack_atlas_Inr:
  assumes "blocs__pack_atlas qs textures atlas_size expand border = Inr packed"
  shows "place_textures atlas_size expand (2 * expand + border) (length textures)
           [start_space atlas_size] (qs blocs__compare_area textures) = Inr packed"
proof -
  have p: "expand * 2 + border = 2 * expand + border" by simp
  show ?thesis using assms unfolding pack_atlas_unfold p by (auto split: if_splits)
qed


lemma place_textures_inside:
  assumes "\<forall>t\<in>set ts. 0 \<le> rect_w (rect t) + padding \<and> 0 \<le> rect_h (rect t) + padding"
    and "padding = 2 * expand + border"
    and "\<forall>s\<in>set spaces. inside s A"
    and "place_textures atlas_size expand padding cap spaces ts = Inr ts'"
    and "i < length ts'"
    and "fit_found padding spaces ts ! i"
  shows "inside (footprint expand border (ts' ! i)) A"
  using assms
proof (induction ts arbitrary: spaces ts' i)
  case Nil
  then show ?case by simp
next
  case (Cons t ts)
  let ?w = "rect_w (rect t) + padding" and ?h = "rect_h (rect t) + padding"
  have nonneg: "0 \<le> ?w" "0 \<le> ?h" using Cons.prems(1) by auto
  have rest: "\<forall>t\<in>set ts. 0 \<le> rect_w (rect t) + padding \<and> 0 \<le> rect_h (rect t) + padding"
    using Cons.prems(1) by auto
  show ?case
  proof (cases "scan_spaces spaces (length spaces) ?w ?h")
    case None
    with Cons.prems(4) obtain r' where r: "place_textures atlas_size expand padding cap spaces ts = Inr r'"
      and ts': "ts' = t # r'"
      by (auto simp: Let_def keep_Inr split: if_splits)
    from None Cons.prems(6) obtain i' where i': "i = Suc i'" "fit_found padding spaces ts ! i'"
      by (cases i) (auto simp: Let_def)
    have "inside (footprint expand border (r' ! i')) A"
      using rest Cons.prems(2,3) r _ i'(2)
      by (rule Cons.IH) (use Cons.prems(5) ts' i'(1) in simp)
    then show ?thesis using ts' i'(1) by simp
  next
    case (Some j)
    let ?spaces' = "update_spaces spaces j ?w ?h"
    let ?t' = "set_position t (spaces ! j) expand"
    from Some Cons.prems(4) obtain r' where r: "place_textures atlas_size expand padding cap ?spaces' ts = Inr r'"
      and ts': "ts' = ?t' # r'"
      by (auto simp: Let_def keep_Inr split: if_splits)
    have j: "j < length spaces" "?w \<le> rect_w (spaces ! j)" "?h \<le> rect_h (spaces ! j)"
      using scan_spaces_Some [OF Some] by auto
    have sp: "inside (spaces ! j) A" using j(1) Cons.prems(3) by simp
    have inv: "\<forall>s\<in>set ?spaces'. inside s A"
      using update_spaces_inside [OF j(1) nonneg(1) j(2) nonneg(2) j(3) Cons.prems(3)] by blast
    show ?thesis
    proof (cases i)
      case 0
      have "inside (footprint expand border ?t') A"
        using sp j(2,3) nonneg
        by (simp add: footprint_set_position inside_def Cons.prems(2) [symmetric])
      then show ?thesis using 0 ts' by simp
    next
      case (Suc i')
      then have f: "fit_found padding ?spaces' ts ! i'"
        using Some Cons.prems(6) by (simp add: Let_def)
      have "inside (footprint expand border (r' ! i')) A"
        using rest Cons.prems(2) inv r _ f
        by (rule Cons.IH) (use Cons.prems(5) ts' Suc in simp)
      then show ?thesis using ts' Suc by simp
    qed
  qed
qed


lemma place_textures_source:
  "place_textures atlas_size expand padding cap spaces ts = Inr ts' \<Longrightarrow>
     map source_of ts' = map source_of ts"
  by (induction ts arbitrary: spaces ts')
     (auto simp: Let_def keep_Inr source_of_def set_position_def split: option.splits if_splits)


lemma length_update_spaces: "j < length spaces \<Longrightarrow> length (update_spaces spaces j w h) \<le> Suc (length spaces)"
  by (auto simp: update_spaces_def Let_def)

lemma place_textures_enough_slots:
  "length spaces + length ts \<le> cap \<Longrightarrow>
     place_textures atlas_size expand padding cap spaces ts \<noteq> Inl (SpacesOutOfBounds, r)"
proof (induction ts arbitrary: spaces r)
  case Nil
  then show ?case by simp
next
  case (Cons t ts)
  show ?case
  proof (cases "scan_spaces spaces (length spaces) (rect_w (rect t) + padding) (rect_h (rect t) + padding)")
    case None
    have "place_textures atlas_size expand padding cap spaces ts \<noteq> Inl (SpacesOutOfBounds, r')" for r'
      using Cons.prems by (intro Cons.IH) simp
    then show ?thesis using None by (auto simp: Let_def keep_Inl)
  next
    case (Some j)
    let ?spaces' = "update_spaces spaces j (rect_w (rect t) + padding) (rect_h (rect t) + padding)"
    have j: "j < length spaces" using scan_spaces_Some [OF Some] by simp
    have l: "length ?spaces' \<le> Suc (length spaces)" using j by (rule length_update_spaces)
    have "place_textures atlas_size expand padding cap ?spaces' ts \<noteq> Inl (SpacesOutOfBounds, r')" for r'
      using Cons.prems l by (intro Cons.IH) simp
    then show ?thesis using Some l Cons.prems by (auto simp: Let_def keep_Inl)
  qed
qed

lemma update_spaces_split_case:
  assumes "w < rect_w (spaces ! j)" and "h < rect_h (spaces ! j)"
  shows "update_spaces spaces j w h =
           (spaces @ [\<lparr>rect_x = rect_x (spaces ! j) + w, rect_y = rect_y (spaces ! j),
                       rect_w = rect_w (spaces ! j) - w, rect_h = h\<rparr>])
             [j := \<lparr>rect_x = rect_x (spaces ! j), rect_y = rect_y (spaces ! j) + h,
                    rect_w = rect_w (spaces ! j), rect_h = rect_h (spaces ! j) - h\<rparr>]"
  using assms by (cases "spaces ! j") (simp add: update_spaces_def Let_def)

lemma placed_footprints_apart:
  assumes "\<forall>t\<in>set ts. 0 \<le> rect_w (rect t) + (2 * expand + border) \<and>
                         0 \<le> rect_h (rect t) + (2 * expand + border)"
    and "place_textures atlas_size expand (2 * expand + border) cap [start_space atlas_size] ts = Inr packed"
    and "i < j" and "j < length packed"
    and "fit_found (2 * expand + border) [start_space atlas_size] ts ! i"
    and "fit_found (2 * expand + border) [start_space atlas_size] ts ! j"
  shows "\<not> intersects (footprint expand border (packed ! i)) (footprint expand border (packed ! j))"
proof
  assume "intersects (footprint expand border (packed ! i)) (footprint expand border (packed ! j))"
  then obtain p where p: "p \<in> pixels (footprint expand border (packed ! i))"
      "p \<in> pixels (footprint expand border (packed ! j))"
    unfolding intersects_iff by blast
  let ?flags = "fit_found (2 * expand + border) [start_space atlas_size] ts"
  have len: "length ?flags = length packed"
    using length_place_textures [OF assms(2)] by (simp add: length_fit_found)
  have "2 \<le> fp_count expand border ?flags packed p"
    using assms(3,4) len assms(5,6) p by (rule fp_count_two)
  also have "\<dots> \<le> cover [start_space atlas_size] p"
    using assms(1) refl assms(2) by (rule place_textures_cover)
  also have "\<dots> \<le> 1" by (simp add: cover_def)
  finally show False by simp
qed

lemma placed_footprint_inside:
  assumes "\<forall>t\<in>set ts. 0 \<le> rect_w (rect t) + (2 * expand + border) \<and>
                         0 \<le> rect_h (rect t) + (2 * expand + border)"
    and "place_textures atlas_size expand (2 * expand + border) cap [start_space atlas_size] ts = Inr packed"
    and "i < length packed"
    and "fit_found (2 * expand + border) [start_space atlas_size] ts ! i"
  shows "inside (footprint expand border (packed ! i)) (start_space atlas_size)"
proof -
  have start: "\<forall>s\<in>set [start_space atlas_size]. inside s (start_space atlas_size)"
    by (simp add: inside_def)
  show ?thesis
    using assms(1) refl start assms(2,3,4) by (rule place_textures_inside)
qed

lemma footprints_apart:
  assumes "qsort_spec blocs__compare_area qs"
    and "\<forall>t\<in>set textures. 0 \<le> rect_w (rect t) + (2 * expand + border) \<and>
                         0 \<le> rect_h (rect t) + (2 * expand + border)"
    and "blocs__pack_atlas qs textures atlas_size expand border = Inr packed"
    and "i < j" and "j < length packed"
    and "placed qs textures atlas_size expand border ! i"
    and "placed qs textures atlas_size expand border ! j"
  shows "\<not> intersects (footprint expand border (packed ! i)) (footprint expand border (packed ! j))"
proof -
  let ?sorted = "qs blocs__compare_area textures"
  have pe: "expand * 2 + border = 2 * expand + border" by simp
  have flags: "placed qs textures atlas_size expand border =
      fit_found (2 * expand + border) [start_space atlas_size] ?sorted"
    by (simp add: placed_def pe)
  have run: "place_textures atlas_size expand (2 * expand + border) (length textures)
           [start_space atlas_size] ?sorted = Inr packed"
    using assms(3) by (rule pack_atlas_Inr)
  have nonneg: "\<forall>t\<in>set ?sorted. 0 \<le> rect_w (rect t) + (2 * expand + border) \<and>
                         0 \<le> rect_h (rect t) + (2 * expand + border)"
    using assms(2) qsort_spec_set [OF assms(1)] by simp
  show ?thesis
    using nonneg run assms(4,5) assms(6,7) [unfolded flags] by (rule placed_footprints_apart)
qed

lemma footprint_inside_atlas:
  assumes "qsort_spec blocs__compare_area qs"
    and "\<forall>t\<in>set textures. 0 \<le> rect_w (rect t) + (2 * expand + border) \<and>
                         0 \<le> rect_h (rect t) + (2 * expand + border)"
    and "blocs__pack_atlas qs textures atlas_size expand border = Inr packed"
    and "i < length packed"
    and "placed qs textures atlas_size expand border ! i"
  shows "inside (footprint expand border (packed ! i)) (start_space atlas_size)"
proof -
  let ?sorted = "qs blocs__compare_area textures"
  have pe: "expand * 2 + border = 2 * expand + border" by simp
  have flags: "fit_found (2 * expand + border) [start_space atlas_size] ?sorted ! i"
    using assms(5) by (simp add: placed_def pe)
  have run: "place_textures atlas_size expand (2 * expand + border) (length textures)
           [start_space atlas_size] ?sorted = Inr packed"
    using assms(3) by (rule pack_atlas_Inr)
  have nonneg: "\<forall>t\<in>set ?sorted. 0 \<le> rect_w (rect t) + (2 * expand + border) \<and>
                         0 \<le> rect_h (rect t) + (2 * expand + border)"
    using assms(2) qsort_spec_set [OF assms(1)] by simp
  show ?thesis
    using nonneg run assms(4) flags by (rule placed_footprint_inside)
qed

section \<open>Properties of packing in the C++ implementation\<close>

text \<open>
  A run of \<^verbatim>\<open>atlas::pack\<close> that returns is a run of the C loop with enough slots, so what
  holds of the positions computed by the C loop holds of the C++ ones.
\<close>

lemma pack_textures_refines:
  assumes "pack_textures m_size expand padding spaces ts = Inr packed"
    and "length spaces + length ts \<le> cap"
  shows "place_textures m_size expand padding cap spaces ts = Inr packed"
  using assms
proof (induction ts arbitrary: spaces packed)
  case Nil
  then show ?case by simp
next
  case (Cons t ts)
  let ?w = "rect_w (rect t) + padding" and ?h = "rect_h (rect t) + padding"
  have ok: "rect_w (rect t) \<le> m_size \<and> rect_h (rect t) \<le> m_size"
    using Cons.prems(1) by (auto split: if_splits)
  show ?case
  proof (cases "scan_spaces spaces (length spaces) ?w ?h")
    case None
    with Cons.prems(1) obtain r' where r: "pack_textures m_size expand padding spaces ts = Inr r'"
      and p: "packed = t # r'"
      by (auto simp: Let_def keep_Inr split: if_splits)
    have "place_textures m_size expand padding cap spaces ts = Inr r'"
      using r Cons.prems(2) by (intro Cons.IH) auto
    then show ?thesis using None ok p by (simp add: Let_def keep_Inr)
  next
    case (Some j)
    let ?spaces' = "update_spaces spaces j ?w ?h"
    from Some Cons.prems(1) obtain r' where r: "pack_textures m_size expand padding ?spaces' ts = Inr r'"
      and p: "packed = set_position t (spaces ! j) expand # r'"
      by (auto simp: Let_def keep_Inr split: if_splits)
    have j: "j < length spaces" using scan_spaces_Some [OF Some] by simp
    have l: "length ?spaces' \<le> Suc (length spaces)" using j by (rule length_update_spaces)
    have "place_textures m_size expand padding cap ?spaces' ts = Inr r'"
      using r Cons.prems(2) l by (intro Cons.IH) auto
    then show ?thesis using Some ok p l Cons.prems(2) by (simp add: Let_def keep_Inr)
  qed
qed

lemma set_insert_sorted: "set (insert_sorted precedes a ys) = insert a (set ys)"
  by (induction ys) auto

lemma mset_insert_sorted: "mset (insert_sorted precedes a ys) = add_mset a (mset ys)"
  by (induction ys) auto

lemma sorted_insert_sorted:
  "sorted_wrt (\<lambda>a b. \<not> taller b a) ys \<Longrightarrow>
   sorted_wrt (\<lambda>a b. \<not> taller b a) (insert_sorted taller a ys)"
  by (induction ys) (auto simp: taller_def set_insert_sorted)

lemma insertion_sort_spec: "std_sort_spec taller insertion_sort"
proof -
  have "mset (insertion_sort precedes xs) = mset xs"
    for precedes :: "blocs__texture \<Rightarrow> blocs__texture \<Rightarrow> bool" and xs
    unfolding insertion_sort_def by (induction xs) (simp_all add: mset_insert_sorted)
  moreover have "sorted_wrt (\<lambda>a b. \<not> taller b a) (insertion_sort taller xs)" for xs
    unfolding insertion_sort_def by (induction xs) (simp_all add: sorted_insert_sorted)
  ultimately show ?thesis by (simp add: std_sort_spec_def)
qed

lemma atlas_pack_unfold:
  "atlas_pack ss textures m_size expand border =
     (if \<not> (0 \<le> m_size \<and> (\<forall>t\<in>set textures. rect_w (rect t) + (expand * 2 + border) \<le> m_size \<and>
            rect_h (rect t) + (expand * 2 + border) \<le> m_size)) then
        Inl (OversizedTexture, textures)
      else if \<not> (real_of_int (int32 (padded_area (expand * 2 + border) textures)) \<le>
                  real_of_int (int32 (m_size * m_size)) * 0.85) then
        Inl (InsufficientSpace, textures)
      else pack_textures m_size expand (expand * 2 + border) [start_space m_size] (ss taller textures))"
proof -
  obtain area max_w max_h where m: "measure_textures (expand * 2 + border) textures (0, 0, 0) = (area, max_w, max_h)"
    by (metis prod_cases3)
  have a: "area = int32 (padded_area (expand * 2 + border) textures)"
    using measure_textures_area [of 0 "expand * 2 + border" textures 0 0] m
    by (simp add: padded_area_def int32_def)
  have w: "max_w \<le> m_size \<longleftrightarrow> 0 \<le> m_size \<and> (\<forall>t\<in>set textures. rect_w (rect t) + (expand * 2 + border) \<le> m_size)"
    using measure_textures_max_w [of "expand * 2 + border" textures 0 0 0 m_size] m by simp
  have h: "max_h \<le> m_size \<longleftrightarrow> 0 \<le> m_size \<and> (\<forall>t\<in>set textures. rect_h (rect t) + (expand * 2 + border) \<le> m_size)"
    using measure_textures_max_h [of "expand * 2 + border" textures 0 0 0 m_size] m by simp
  show ?thesis
    unfolding atlas_pack_def Let_def m prod.case a w h by auto
qed

lemma atlas_pack_Inr:
  assumes "atlas_pack ss textures m_size expand border = Inr packed"
  shows "place_textures m_size expand (2 * expand + border) (Suc (length (ss taller textures)))
           [start_space m_size] (ss taller textures) = Inr packed"
proof -
  have p: "expand * 2 + border = 2 * expand + border" by simp
  have "pack_textures m_size expand (2 * expand + border) [start_space m_size] (ss taller textures) = Inr packed"
    using assms unfolding atlas_pack_unfold p by (auto split: if_splits)
  then show ?thesis by (rule pack_textures_refines) simp
qed

lemma atlas_pack_no_overlap:
  assumes "std_sort_spec taller ss"
    and "\<forall>t\<in>set textures. 0 \<le> rect_w (rect t) + (2 * expand + border) \<and>
                         0 \<le> rect_h (rect t) + (2 * expand + border)"
    and "atlas_pack ss textures m_size expand border = Inr packed"
    and "i < j" and "j < length packed"
    and "atlas_placed ss textures m_size expand border ! i"
    and "atlas_placed ss textures m_size expand border ! j"
  shows "\<not> intersects (footprint expand border (packed ! i)) (footprint expand border (packed ! j))"
proof -
  let ?sorted = "ss taller textures"
  have pe: "expand * 2 + border = 2 * expand + border" by simp
  have flags: "atlas_placed ss textures m_size expand border =
      fit_found (2 * expand + border) [start_space m_size] ?sorted"
    by (simp add: atlas_placed_def pe)
  have "set ?sorted = set textures"
    using assms(1) by (metis std_sort_spec_def mset_eq_setD)
  then have nonneg: "\<forall>t\<in>set ?sorted. 0 \<le> rect_w (rect t) + (2 * expand + border) \<and>
                         0 \<le> rect_h (rect t) + (2 * expand + border)"
    using assms(2) by simp
  show ?thesis
    using nonneg atlas_pack_Inr [OF assms(3)] assms(4,5) assms(6,7) [unfolded flags]
    by (rule placed_footprints_apart)
qed

lemma atlas_pack_containment:
  assumes "std_sort_spec taller ss"
    and "\<forall>t\<in>set textures. 0 \<le> rect_w (rect t) + (2 * expand + border) \<and>
                         0 \<le> rect_h (rect t) + (2 * expand + border)"
    and "atlas_pack ss textures m_size expand border = Inr packed"
    and "i < length packed"
    and "atlas_placed ss textures m_size expand border ! i"
  shows "inside (footprint expand border (packed ! i)) (start_space m_size)"
proof -
  let ?sorted = "ss taller textures"
  have pe: "expand * 2 + border = 2 * expand + border" by simp
  have flags: "fit_found (2 * expand + border) [start_space m_size] ?sorted ! i"
    using assms(5) by (simp add: atlas_placed_def pe)
  have "set ?sorted = set textures"
    using assms(1) by (metis std_sort_spec_def mset_eq_setD)
  then have nonneg: "\<forall>t\<in>set ?sorted. 0 \<le> rect_w (rect t) + (2 * expand + border) \<and>
                         0 \<le> rect_h (rect t) + (2 * expand + border)"
    using assms(2) by simp
  show ?thesis
    using nonneg atlas_pack_Inr [OF assms(3)] assms(4) flags by (rule placed_footprint_inside)
qed

text \<open>
  The vector has no slot limit: the three textures that overrun the array of the C
  implementation are packed. A texture that fits no free space is skipped here too.
\<close>

lemma atlas_pack_stepped:
  "atlas_pack insertion_sort stepped_textures 100 0 0 = Inr stepped_packed"
  by code_simp

lemma atlas_pack_tight:
  "atlas_pack insertion_sort tight_textures 10 0 0 = Inr tight_packed"
  "atlas_placed insertion_sort tight_textures 10 0 0 = [True, False, True]"
  by code_simp+

lemma atlas_pack_crowded:
  "atlas_pack insertion_sort crowded_textures 4096 0 4095 = Inr crowded_textures"
  by code_simp

lemma pack_textures_split:
  assumes "rect_w (rect t) < m_size" and "rect_h (rect t) < m_size"
    and "scan_spaces spaces (length spaces) (rect_w (rect t) + padding) (rect_h (rect t) + padding) = Some i"
    and "rect_w (rect t) + padding < rect_w (spaces ! i)"
    and "rect_h (rect t) + padding < rect_h (spaces ! i)"
  shows "pack_textures m_size m_expand padding spaces (t # ts) =
     keep (set_position t (spaces ! i) m_expand)
       (pack_textures m_size m_expand padding
          ((spaces @ [\<lparr>rect_x = rect_x (spaces ! i) + (rect_w (rect t) + padding),
                       rect_y = rect_y (spaces ! i),
                       rect_w = rect_w (spaces ! i) - (rect_w (rect t) + padding),
                       rect_h = rect_h (rect t) + padding\<rparr>])
             [i := \<lparr>rect_x = rect_x (spaces ! i),
                    rect_y = rect_y (spaces ! i) + (rect_h (rect t) + padding),
                    rect_w = rect_w (spaces ! i),
                    rect_h = rect_h (spaces ! i) - (rect_h (rect t) + padding)\<rparr>]) ts)"
  using assms by (simp add: Let_def update_spaces_split_case)

section \<open>Properties of compositing\<close>

lemma pixel_in_span:
  fixes a n W px py q c :: int
  assumes "0 \<le> a" and "a + n \<le> W" and "0 \<le> px" and "px < W" and "0 \<le> c" and "c < 4"
  shows "((a + q * W) * 4 \<le> (py * W + px) * 4 + c \<and> (py * W + px) * 4 + c < (a + q * W) * 4 + n * 4)
           \<longleftrightarrow> (py = q \<and> a \<le> px \<and> px < a + n)"
proof -
  have W: "0 < W" using assms by linarith
  have lhs: "((a + q * W) * 4 \<le> (py * W + px) * 4 + c \<and> (py * W + px) * 4 + c < (a + q * W) * 4 + n * 4)
      \<longleftrightarrow> (a + q * W \<le> py * W + px \<and> py * W + px < a + q * W + n)"
  proof -
    have "(A * 4 \<le> B * 4 + c \<and> B * 4 + c < A * 4 + n * 4) \<longleftrightarrow> (A \<le> B \<and> B < A + n)" for A B :: int
      using assms(5,6) by presburger
    from this [of "a + q * W" "py * W + px"] show ?thesis .
  qed
  have "py = q" if h: "a + q * W \<le> py * W + px" "py * W + px < a + q * W + n"
  proof (rule ccontr)
    assume ne: "py \<noteq> q"
    show False
    proof (cases "py < q")
      case True
      then have "py + 1 \<le> q" by simp
      then have "(py + 1) * W \<le> q * W" using W by (intro mult_right_mono) auto
      then have "py * W + W \<le> q * W" by (simp add: algebra_simps)
      then show False using h assms by linarith
    next
      case False
      then have "q + 1 \<le> py" using ne by simp
      then have "(q + 1) * W \<le> py * W" using W by (intro mult_right_mono) auto
      then have "q * W + W \<le> py * W" by (simp add: algebra_simps)
      then show False using h assms by linarith
    qed
  qed
  then show ?thesis unfolding lhs by auto
qed

lemma set_pixels_rows_spec:
  assumes "set_pixels_rows bytes W data pos dst y = Some bytes'"
    and "rect_w dst \<le> W"
  shows "length bytes' = length bytes \<and>
         (\<forall>k<length bytes.
            (\<forall>yy. y \<le> yy \<and> yy < rect_h dst \<longrightarrow>
               \<not> ((rect_x dst + (rect_y dst + yy) * W) * 4 \<le> int k \<and>
                  int k < (rect_x dst + (rect_y dst + yy) * W) * 4 + rect_w dst * 4)) \<longrightarrow>
            bytes' ! k = bytes ! k) \<and>
         (\<forall>k<length bytes. \<forall>yy. y \<le> yy \<and> yy < rect_h dst \<and>
               (rect_x dst + (rect_y dst + yy) * W) * 4 \<le> int k \<and>
               int k < (rect_x dst + (rect_y dst + yy) * W) * 4 + rect_w dst * 4 \<longrightarrow>
            bytes' ! k = data ! nat (pos + yy * rect_w dst * 4 + (int k - (rect_x dst + (rect_y dst + yy) * W) * 4)))"
  using assms
proof (induction bytes W data pos dst y rule: set_pixels_rows.induct)
  case (1 bytes W data pos dst y)
  let ?d = "\<lambda>yy. (rect_x dst + (rect_y dst + yy) * W) * 4"
  let ?n = "rect_w dst * 4"
  show ?case
  proof (cases "y < rect_h dst")
    case False
    then show ?thesis using "1.prems" by (auto simp: set_pixels_rows.simps [of bytes])
  next
    case True
    from True "1.prems"(1) obtain b1 where
      m: "memcpy bytes (?d y) data (pos + y * rect_w dst * 4) ?n = Some b1"
      and rest: "set_pixels_rows b1 W data pos dst (y + 1) = Some bytes'"
      by (simp add: set_pixels_rows.simps [of bytes] Let_def CHANNELS_def split: option.splits)
    have ih: "length bytes' = length b1 \<and>
         (\<forall>k<length b1.
            (\<forall>yy. y + 1 \<le> yy \<and> yy < rect_h dst \<longrightarrow> \<not> (?d yy \<le> int k \<and> int k < ?d yy + ?n)) \<longrightarrow>
            bytes' ! k = b1 ! k) \<and>
         (\<forall>k<length b1. \<forall>yy. y + 1 \<le> yy \<and> yy < rect_h dst \<and> ?d yy \<le> int k \<and> int k < ?d yy + ?n \<longrightarrow>
            bytes' ! k = data ! nat (pos + yy * rect_w dst * 4 + (int k - ?d yy)))"
      using "1.IH" [OF True refl refl _ rest "1.prems"(2)] m by (simp add: CHANNELS_def)
    have len1: "length b1 = length bytes" using m by (rule memcpy_length)
    have n0: "0 \<le> ?n" using m by (auto simp: memcpy_def split: if_splits)
    then have W0: "0 \<le> W" using "1.prems"(2) by linarith
    have nth1: "b1 ! k = (if ?d y \<le> int k \<and> int k < ?d y + ?n
        then data ! nat (pos + y * rect_w dst * 4 + (int k - ?d y)) else bytes ! k)"
      if "k < length bytes" for k
      using memcpy_nth [OF m that] by simp
    have later: "?d y + ?n \<le> ?d yy" if "y + 1 \<le> yy" for yy
    proof -
      have "(y + 1) * W \<le> yy * W" using that W0 by (intro mult_right_mono) auto
      then have "y * W + W \<le> yy * W" by (simp add: algebra_simps)
      then show ?thesis using "1.prems"(2) by (simp add: algebra_simps)
    qed
    have frame: "bytes' ! k = bytes ! k"
      if k: "k < length bytes"
        and out: "\<forall>yy. y \<le> yy \<and> yy < rect_h dst \<longrightarrow> \<not> (?d yy \<le> int k \<and> int k < ?d yy + ?n)" for k
    proof -
      have "bytes' ! k = b1 ! k" using ih k len1 out by auto
      moreover have notin: "\<not> (?d y \<le> int k \<and> int k < ?d y + ?n)" using out True by auto
      moreover have "b1 ! k = bytes ! k" by (simp only: nth1 [OF k] notin if_False simp_thms)
      ultimately show ?thesis by simp
    qed
    have val: "bytes' ! k = data ! nat (pos + yy * rect_w dst * 4 + (int k - ?d yy))"
      if k: "k < length bytes" and yy: "y \<le> yy" "yy < rect_h dst"
        and inr: "?d yy \<le> int k" "int k < ?d yy + ?n" for k yy
    proof (cases "yy = y")
      case True
      have "\<not> (?d y' \<le> int k \<and> int k < ?d y' + ?n)" if "y + 1 \<le> y'" for y'
        using later [OF that] inr [unfolded True] by linarith
      then have b: "bytes' ! k = b1 ! k" using ih k len1 by auto
      have c: "?d y \<le> int k \<and> int k < ?d y + ?n" using inr True by simp
      have "b1 ! k = data ! nat (pos + y * rect_w dst * 4 + (int k - ?d y))"
        by (simp only: nth1 [OF k] c if_True simp_thms)
      then show ?thesis unfolding True using b by simp
    next
      case False
      then have "y + 1 \<le> yy" using yy by simp
      then show ?thesis using ih k len1 yy inr by auto
    qed
    have l: "length bytes' = length bytes" using ih len1 by simp
    show ?thesis
    proof (intro conjI allI impI)
      show "length bytes' = length bytes" by (rule l)
    next
      fix k
      assume "k < length bytes"
        and "\<forall>yy. y \<le> yy \<and> yy < rect_h dst \<longrightarrow> \<not> (?d yy \<le> int k \<and> int k < ?d yy + ?n)"
      then show "bytes' ! k = bytes ! k" by (rule frame)
    next
      fix k yy
      assume "k < length bytes"
        and "y \<le> yy \<and> yy < rect_h dst \<and> ?d yy \<le> int k \<and> int k < ?d yy + ?n"
      then show "bytes' ! k = data ! nat (pos + yy * rect_w dst * 4 + (int k - ?d yy))"
        by (intro val) auto
    qed
  qed
qed


lemma scaled_nonneg: "0 \<le> (A::int) \<Longrightarrow> 0 \<le> p \<Longrightarrow> 0 \<le> (A + p) * 4 + int c"
  by simp

lemma scaled_less: "(A::int) + p < B \<Longrightarrow> c < 4 \<Longrightarrow> (A + p) * 4 + int c < B * 4"
  by simp

lemma pixel_index_bound:
  fixes W H px py :: int
  assumes "0 \<le> px" "px < W" "0 \<le> py" "py < H" "c < 4"
  shows "0 \<le> (py * W + px) * 4 + int c \<and> (py * W + px) * 4 + int c < W * H * 4"
proof -
  have W: "0 \<le> W" using assms by linarith
  have "py * W \<le> (H - 1) * W" using assms W by (intro mult_right_mono) auto
  then have a: "py * W + px < H * W" using assms by (simp add: algebra_simps)
  have b: "0 \<le> py * W" using assms W by simp
  have "0 \<le> (py * W + px) * 4 + int c" using b assms(1) by (rule scaled_nonneg)
  moreover have "(py * W + px) * 4 + int c < H * W * 4" using a assms(5) by (rule scaled_less)
  ultimately show ?thesis by (simp only: mult.commute [of W H] simp_thms)
qed

lemma pixel_byte_0: "pixel_byte bytes 0 W px py c = bytes ! nat ((py * W + px) * 4 + int c)"
  by (simp add: pixel_byte_def CHANNELS_def)

lemma pixel_byte_pos: "pixel_byte data pos w a b c = data ! nat (pos + (b * w + a) * 4 + int c)"
  by (simp add: pixel_byte_def CHANNELS_def)

lemma set_pixels_pixels:
  assumes "blocs__set_pixels img data pos dst = Some img'"
    and "image_data img = Some bytes"
    and "int (length bytes) = image_w img * image_h img * 4"
    and "0 \<le> rect_x dst" and "0 \<le> rect_y dst"
  shows "image_w img' = image_w img \<and> image_h img' = image_h img \<and>
     (\<exists>bytes'. image_data img' = Some bytes' \<and> length bytes' = length bytes \<and>
       (\<forall>px py c. 0 \<le> px \<and> px < image_w img \<and> 0 \<le> py \<and> py < image_h img \<and> c < 4 \<longrightarrow>
          pixel_byte bytes' 0 (image_w img) px py c =
            (if (px, py) \<in> pixels dst
             then pixel_byte data pos (rect_w dst) (px - rect_x dst) (py - rect_y dst) c
             else pixel_byte bytes 0 (image_w img) px py c)))"
proof -
  let ?W = "image_w img" and ?H = "image_h img"
  let ?d = "\<lambda>yy. (rect_x dst + (rect_y dst + yy) * ?W) * 4"
  from assms(1,2) obtain bytes' where
    fits: "rect_x dst + rect_w dst \<le> ?W" "rect_y dst + rect_h dst \<le> ?H"
    and rows: "set_pixels_rows bytes ?W data pos dst 0 = Some bytes'"
    and img': "img' = img\<lparr>image_data := Some bytes'\<rparr>"
    by (auto simp: blocs__set_pixels_def split: if_splits option.splits)
  have wW: "rect_w dst \<le> ?W" using fits assms(4) by linarith
  note spec = set_pixels_rows_spec [OF rows wW]
  note frame = spec [THEN conjunct2, THEN conjunct1, rule_format]
  note val = spec [THEN conjunct2, THEN conjunct2, rule_format]
  have px: "pixel_byte bytes' 0 ?W px py c =
            (if (px, py) \<in> pixels dst
             then pixel_byte data pos (rect_w dst) (px - rect_x dst) (py - rect_y dst) c
             else pixel_byte bytes 0 ?W px py c)"
    if r: "0 \<le> px" "px < ?W" "0 \<le> py" "py < ?H" "c < 4" for px py c
  proof -
    let ?k = "nat ((py * ?W + px) * 4 + int c)"
    have kb: "0 \<le> (py * ?W + px) * 4 + int c" "(py * ?W + px) * 4 + int c < ?W * ?H * 4"
      using pixel_index_bound [OF r] by auto
    have k: "?k < length bytes" using kb assms(3) by linarith
    have ik: "int ?k = (py * ?W + px) * 4 + int c" using kb by simp
    have span: "(?d yy \<le> int ?k \<and> int ?k < ?d yy + rect_w dst * 4) \<longleftrightarrow>
        (py = rect_y dst + yy \<and> rect_x dst \<le> px \<and> px < rect_x dst + rect_w dst)" for yy
      unfolding ik using r by (intro pixel_in_span assms(4) fits(1)) auto
    show ?thesis
    proof (cases "(px, py) \<in> pixels dst")
      case True
      then have m: "rect_x dst \<le> px" "px < rect_x dst + rect_w dst"
          "rect_y dst \<le> py" "py < rect_y dst + rect_h dst"
        by (auto simp: pixels_def)
      let ?yy = "py - rect_y dst"
      have inr: "?d ?yy \<le> int ?k \<and> int ?k < ?d ?yy + rect_w dst * 4"
        unfolding span using m by simp
      have yy: "0 \<le> ?yy" "?yy < rect_h dst" using m by linarith+
      have "bytes' ! ?k = data ! nat (pos + ?yy * rect_w dst * 4 + (int ?k - ?d ?yy))"
        by (rule val [OF k]) (use yy inr in blast)
      moreover have "pos + ?yy * rect_w dst * 4 + (int ?k - ?d ?yy) =
          pos + (?yy * rect_w dst + (px - rect_x dst)) * 4 + int c"
        unfolding ik by (simp add: algebra_simps)
      ultimately have "bytes' ! ?k = data ! nat (pos + (?yy * rect_w dst + (px - rect_x dst)) * 4 + int c)"
        by (simp only:)
      then show ?thesis unfolding pixel_byte_pos using True by (simp only: if_True add_0)
    next
      case False
      have "\<not> (?d yy \<le> int ?k \<and> int ?k < ?d yy + rect_w dst * 4)"
        if "0 \<le> yy \<and> yy < rect_h dst" for yy
        unfolding span using False that by (auto simp: pixels_def)
      then have "bytes' ! ?k = bytes ! ?k" by (intro frame [OF k]) blast
      then show ?thesis unfolding pixel_byte_pos using False by (simp only: if_False add_0)
    qed
  qed
  have "length bytes' = length bytes" using spec by simp
  then show ?thesis using px img' by simp
qed

lemma assign_byte_Some:
  assumes "assign_byte dst i src j = Some dst'"
  shows "0 \<le> i" and "i < int (length dst)" and "dst' = dst[nat i := src ! nat j]"
  using assms by (auto simp: assign_byte_def split: if_splits)

lemma copy_pixel_spec:
  assumes "copy_pixel dst i src j = Some dst'"
  shows "length dst' = length dst \<and>
         (\<forall>k<length dst. dst' ! k =
            (if i \<le> int k \<and> int k < i + 4 then src ! nat (j + (int k - i)) else dst ! k))"
proof -
  from assms obtain b0 b1 b2 where
    a0: "assign_byte dst (i + 0) src (j + 0) = Some b0"
    and a1: "assign_byte b0 (i + 1) src (j + 1) = Some b1"
    and a2: "assign_byte b1 (i + 2) src (j + 2) = Some b2"
    and a3: "assign_byte b2 (i + 3) src (j + 3) = Some dst'"
    unfolding copy_pixel_def by (auto simp: Option.bind_eq_Some_conv)
  note s0 = assign_byte_Some [OF a0] and s1 = assign_byte_Some [OF a1]
    and s2 = assign_byte_Some [OF a2] and s3 = assign_byte_Some [OF a3]
  have i0: "0 \<le> i" using s0(1) by simp
  have n: "nat (i + 0) = nat i" "nat (i + 1) = nat i + 1" "nat (i + 2) = nat i + 2" "nat (i + 3) = nat i + 3"
    using i0 by linarith+
  have d: "dst' = dst[nat i := src ! nat (j + 0), nat i + 1 := src ! nat (j + 1),
                      nat i + 2 := src ! nat (j + 2), nat i + 3 := src ! nat (j + 3)]"
    using s0(3) s1(3) s2(3) s3(3) by (simp only: n)
  have len: "length dst' = length dst" by (simp add: d)
  have nth: "dst' ! k = (if i \<le> int k \<and> int k < i + 4 then src ! nat (j + (int k - i)) else dst ! k)"
    if k: "k < length dst" for k
  proof -
    consider "k = nat i" | "k = nat i + 1" | "k = nat i + 2" | "k = nat i + 3"
      | "\<not> (i \<le> int k \<and> int k < i + 4)"
      using i0 by linarith
    then show ?thesis
    proof cases
      case 1
      then have "int k - i = 0" "i \<le> int k \<and> int k < i + 4" using i0 by linarith+
      then show ?thesis using k 1 i0 by (simp add: d)
    next
      case 2
      then have "int k - i = 1" "i \<le> int k \<and> int k < i + 4" using i0 by linarith+
      then show ?thesis using k 2 i0 by (simp add: d)
    next
      case 3
      then have "int k - i = 2" "i \<le> int k \<and> int k < i + 4" using i0 by linarith+
      then show ?thesis using k 3 i0 by (simp add: d)
    next
      case 4
      then have "int k - i = 3" "i \<le> int k \<and> int k < i + 4" using i0 by linarith+
      then show ?thesis using k 4 i0 by (simp add: d)
    next
      case 5
      then have "k \<noteq> nat i" "k \<noteq> nat i + 1" "k \<noteq> nat i + 2" "k \<noteq> nat i + 3"
        using i0 by linarith+
      then have "dst' ! k = dst ! k" by (simp add: d)
      then show ?thesis using 5 by (simp only: if_False)
    qed
  qed
  show ?thesis using len nth by blast
qed


lemma dvd4_step:
  fixes x x' :: int
  assumes "4 dvd x" and "4 dvd x'" and "x \<le> x'" and "x' \<noteq> x"
  shows "x + 4 \<le> x'"
  using assms by presburger

lemma expand_row_spec:
  assumes "expand_row dst W buffer pos r e y x = Some dst'"
    and "4 dvd x"
    and "i0 = rect_x r * 4 + (rect_y r * 4 + y) * W"
  shows "length dst' = length dst \<and>
    (\<forall>k<length dst. \<not> (i0 + x \<le> int k \<and> int k < i0 + (rect_w r + e) * 4) \<longrightarrow> dst' ! k = dst ! k) \<and>
    (\<forall>k<length dst. \<forall>x'. x \<le> x' \<and> x' < (rect_w r + e) * 4 \<and> 4 dvd x' \<and>
          i0 + x' \<le> int k \<and> int k < i0 + x' + 4 \<longrightarrow>
        dst' ! k = buffer ! nat (pos + (clamp_src x' (rect_w r) + clamp_src y (rect_h r) * rect_w r)
                                 + (int k - (i0 + x'))))"
  using assms
proof (induction dst W buffer pos r e y x rule: expand_row.induct)
  case (1 dst W buffer pos r e y x)
  let ?xmax = "(rect_w r + e) * 4"
  let ?src = "\<lambda>x'. pos + (clamp_src x' (rect_w r) + clamp_src y (rect_h r) * rect_w r)"
  show ?case
  proof (cases "x < ?xmax")
    case False
    then have "dst' = dst" using "1.prems"(1) by (simp add: expand_row.simps [of dst] CHANNELS_def)
    then show ?thesis using False by auto
  next
    case True
    have idx: "rect_x r * CHANNELS + x + (rect_y r * CHANNELS + y) * W = i0 + x"
      by (simp add: "1.prems"(3) CHANNELS_def)
    have idx4: "rect_x r * 4 + x + (rect_y r * 4 + y) * W = i0 + x"
      by (simp add: "1.prems"(3))
    have unf: "expand_row dst W buffer pos r e y x =
        (case copy_pixel dst (i0 + x) buffer (?src x) of
           None \<Rightarrow> None
         | Some d \<Rightarrow> expand_row d W buffer pos r e y (x + 4))"
      using True by (subst expand_row.simps) (simp add: Let_def CHANNELS_def idx4 cong: option.case_cong)
    obtain d1 where
      c: "copy_pixel dst (i0 + x) buffer (?src x) = Some d1"
      and rest: "expand_row d1 W buffer pos r e y (x + 4) = Some dst'"
      using "1.prems"(1) unfolding unf by (cases "copy_pixel dst (i0 + x) buffer (?src x)") auto
    have dv: "4 dvd x + 4" using "1.prems"(2) by simp
    have ih: "length dst' = length d1 \<and>
      (\<forall>k<length d1. \<not> (i0 + (x + 4) \<le> int k \<and> int k < i0 + ?xmax) \<longrightarrow> dst' ! k = d1 ! k) \<and>
      (\<forall>k<length d1. \<forall>x'. x + 4 \<le> x' \<and> x' < ?xmax \<and> 4 dvd x' \<and>
            i0 + x' \<le> int k \<and> int k < i0 + x' + 4 \<longrightarrow>
          dst' ! k = buffer ! nat (?src x' + (int k - (i0 + x'))))"
    proof -
      have t: "x < (rect_w r + e) * CHANNELS" using True by (simp add: CHANNELS_def)
      have c': "copy_pixel dst (rect_x r * CHANNELS + x + (rect_y r * CHANNELS + y) * W) buffer
                  (pos + (clamp_src x (rect_w r) + clamp_src y (rect_h r) * rect_w r)) = Some d1"
        using c by (simp only: idx)
      have rest': "expand_row d1 W buffer pos r e y (x + CHANNELS) = Some dst'"
        using rest by (simp add: CHANNELS_def)
      have dv': "4 dvd x + CHANNELS" using dv by (simp add: CHANNELS_def)
      show ?thesis
        using "1.IH" [OF t refl refl c' rest' dv' "1.prems"(3)] by (simp add: CHANNELS_def)
    qed
    note cp = copy_pixel_spec [OF c]
    have len1: "length d1 = length dst" using cp by simp
    have nth1: "d1 ! k = (if i0 + x \<le> int k \<and> int k < i0 + x + 4
        then buffer ! nat (?src x + (int k - (i0 + x))) else dst ! k)" if "k < length dst" for k
      using cp that by simp
    have xm: "x + 4 \<le> ?xmax"
      using True "1.prems"(2) by presburger
    have l: "length dst' = length dst" using ih len1 by simp
    have frame: "dst' ! k = dst ! k"
      if k: "k < length dst" and out: "\<not> (i0 + x \<le> int k \<and> int k < i0 + ?xmax)" for k
    proof -
      have "\<not> (i0 + (x + 4) \<le> int k \<and> int k < i0 + ?xmax)" using out by linarith
      then have "dst' ! k = d1 ! k" using ih k len1 by simp
      moreover have "\<not> (i0 + x \<le> int k \<and> int k < i0 + x + 4)" using out xm by linarith
      ultimately show ?thesis using nth1 [OF k] by simp
    qed
    have val: "dst' ! k = buffer ! nat (?src x' + (int k - (i0 + x')))"
      if k: "k < length dst" and x': "x \<le> x'" "x' < ?xmax" "4 dvd x'"
        and inr: "i0 + x' \<le> int k" "int k < i0 + x' + 4" for k x'
    proof (cases "x' = x")
      case True
      have "\<not> (i0 + (x + 4) \<le> int k \<and> int k < i0 + ?xmax)" using inr True by linarith
      then have "dst' ! k = d1 ! k" using ih k len1 by simp
      moreover have "i0 + x \<le> int k \<and> int k < i0 + x + 4" using inr True by simp
      ultimately show ?thesis using nth1 [OF k] True by simp
    next
      case False
      have "x + 4 \<le> x'" using "1.prems"(2) x'(3) x'(1) False by (rule dvd4_step)
      then show ?thesis using ih k len1 x' inr by simp
    qed
    show ?thesis
    proof (intro conjI allI impI)
      show "length dst' = length dst" by (rule l)
    next
      fix k
      assume "k < length dst" and "\<not> (i0 + x \<le> int k \<and> int k < i0 + ?xmax)"
      then show "dst' ! k = dst ! k" by (rule frame)
    next
      fix k x'
      assume "k < length dst"
        and "x \<le> x' \<and> x' < ?xmax \<and> 4 dvd x' \<and> i0 + x' \<le> int k \<and> int k < i0 + x' + 4"
      then show "dst' ! k = buffer ! nat (?src x' + (int k - (i0 + x')))"
        by (intro val) auto
    qed
  qed
qed

lemma row_start_step:
  assumes "y + 4 \<le> y'" and "0 \<le> W"
  shows "row_start r W y + 4 * W \<le> row_start r W y'"
proof -
  have "(y + 4) * W \<le> y' * W" using assms by (intro mult_right_mono) auto
  then show ?thesis by (simp add: row_start_def algebra_simps)
qed

lemma expand_rows_spec:
  assumes "expand_rows dst W buffer pos r e y = Some dst'"
    and "4 dvd y"
    and "0 \<le> W" and "rect_w r + 2 * e \<le> W"
  shows "length dst' = length dst \<and>
    (\<forall>k<length dst.
       (\<forall>y'. y \<le> y' \<and> y' < (rect_h r + e) * 4 \<and> 4 dvd y' \<longrightarrow>
          \<not> (row_start r W y' - e * 4 \<le> int k \<and> int k < row_start r W y' + (rect_w r + e) * 4)) \<longrightarrow>
       dst' ! k = dst ! k) \<and>
    (\<forall>k<length dst. \<forall>y' x'.
       y \<le> y' \<and> y' < (rect_h r + e) * 4 \<and> 4 dvd y' \<and>
       - e * 4 \<le> x' \<and> x' < (rect_w r + e) * 4 \<and> 4 dvd x' \<and>
       row_start r W y' + x' \<le> int k \<and> int k < row_start r W y' + x' + 4 \<longrightarrow>
       dst' ! k = buffer ! nat (pos + (clamp_src x' (rect_w r) + clamp_src y' (rect_h r) * rect_w r)
                                + (int k - (row_start r W y' + x'))))"
  using assms
proof (induction dst W buffer pos r e y rule: expand_rows.induct)
  case (1 dst W buffer pos r e y)
  let ?ymax = "(rect_h r + e) * 4" and ?xmax = "(rect_w r + e) * 4"
  let ?I = "row_start r W"
  let ?src = "\<lambda>x' y'. pos + (clamp_src x' (rect_w r) + clamp_src y' (rect_h r) * rect_w r)"
  show ?case
  proof (cases "y < ?ymax")
    case False
    then have "dst' = dst" using "1.prems"(1) by (simp add: expand_rows.simps [of dst] CHANNELS_def)
    then show ?thesis using False by auto
  next
    case True
    have unf: "expand_rows dst W buffer pos r e y =
        (case expand_row dst W buffer pos r e y (- e * 4) of
           None \<Rightarrow> None
         | Some d \<Rightarrow> expand_rows d W buffer pos r e (y + 4))"
      using True by (subst expand_rows.simps) (simp add: CHANNELS_def cong: option.case_cong)
    obtain d1 where
      row: "expand_row dst W buffer pos r e y (- e * 4) = Some d1"
      and rest: "expand_rows d1 W buffer pos r e (y + 4) = Some dst'"
      using "1.prems"(1) unfolding unf
      by (cases "expand_row dst W buffer pos r e y (- e * 4)") auto
    have dv: "4 dvd y + 4" using "1.prems"(2) by simp
    have ih: "length dst' = length d1 \<and>
      (\<forall>k<length d1.
         (\<forall>y'. y + 4 \<le> y' \<and> y' < ?ymax \<and> 4 dvd y' \<longrightarrow>
            \<not> (?I y' - e * 4 \<le> int k \<and> int k < ?I y' + ?xmax)) \<longrightarrow>
         dst' ! k = d1 ! k) \<and>
      (\<forall>k<length d1. \<forall>y' x'.
         y + 4 \<le> y' \<and> y' < ?ymax \<and> 4 dvd y' \<and>
         - e * 4 \<le> x' \<and> x' < ?xmax \<and> 4 dvd x' \<and>
         ?I y' + x' \<le> int k \<and> int k < ?I y' + x' + 4 \<longrightarrow>
         dst' ! k = buffer ! nat (?src x' y' + (int k - (?I y' + x'))))"
    proof -
      have t: "y < (rect_h r + e) * CHANNELS" using True by (simp add: CHANNELS_def)
      have row': "expand_row dst W buffer pos r e y (- e * CHANNELS) = Some d1"
        using row by (simp add: CHANNELS_def)
      have rest': "expand_rows d1 W buffer pos r e (y + CHANNELS) = Some dst'"
        using rest by (simp add: CHANNELS_def)
      have dv': "4 dvd y + CHANNELS" using dv by (simp add: CHANNELS_def)
      show ?thesis
        using "1.IH" [OF t row' rest' dv' "1.prems"(3,4)] by (simp add: CHANNELS_def)
    qed
    have dvx: "(4::int) dvd - e * 4" by simp
    note rs = expand_row_spec [OF row dvx row_start_def]
    note rs_frame = rs [THEN conjunct2, THEN conjunct1, rule_format]
    note rs_val = rs [THEN conjunct2, THEN conjunct2, rule_format]
    note ih_frame = ih [THEN conjunct2, THEN conjunct1, rule_format]
    note ih_val = ih [THEN conjunct2, THEN conjunct2, rule_format]
    have len1: "length d1 = length dst" using rs by simp
    have l: "length dst' = length dst" using ih len1 by simp
    have apart: "?I y + ?xmax \<le> ?I y' - e * 4" if "y + 4 \<le> y'" for y'
      using row_start_step [OF that "1.prems"(3), of r] "1.prems"(4) by (simp add: algebra_simps)
    have frame: "dst' ! k = dst ! k"
      if k: "k < length dst"
        and out: "\<forall>y'. y \<le> y' \<and> y' < ?ymax \<and> 4 dvd y' \<longrightarrow>
            \<not> (?I y' - e * 4 \<le> int k \<and> int k < ?I y' + ?xmax)" for k
    proof -
      have "dst' ! k = d1 ! k"
        using k len1 out by (intro ih_frame) auto
      moreover have "\<not> (?I y - e * 4 \<le> int k \<and> int k < ?I y + ?xmax)"
        using out True "1.prems"(2) by auto
      then have "d1 ! k = dst ! k"
        using k by (intro rs_frame) auto
      ultimately show ?thesis by simp
    qed
    have val: "dst' ! k = buffer ! nat (?src x' y' + (int k - (?I y' + x')))"
      if k: "k < length dst" and y': "y \<le> y'" "y' < ?ymax" "4 dvd y'"
        and x': "- e * 4 \<le> x'" "x' < ?xmax" "4 dvd x'"
        and inr: "?I y' + x' \<le> int k" "int k < ?I y' + x' + 4" for k y' x'
    proof (cases "y' = y")
      case True
      have xm: "x' + 4 \<le> ?xmax" using x'(2,3) by presburger
      have "\<not> (?I y'' - e * 4 \<le> int k \<and> int k < ?I y'' + ?xmax)" if "y + 4 \<le> y''" for y''
        using apart [OF that] inr [unfolded True] xm by (simp add: algebra_simps)
      then have "dst' ! k = d1 ! k"
        using k len1 by (intro ih_frame) auto
      moreover have "d1 ! k = buffer ! nat (?src x' y + (int k - (?I y + x')))"
        using k x' inr [unfolded True] by (intro rs_val) auto
      ultimately show ?thesis unfolding True by simp
    next
      case False
      have "y + 4 \<le> y'" using "1.prems"(2) y'(3) y'(1) False by (rule dvd4_step)
      then show ?thesis using k len1 y' x' inr by (intro ih_val) auto
    qed
    show ?thesis
    proof (intro conjI allI impI)
      show "length dst' = length dst" by (rule l)
    next
      fix k
      assume "k < length dst"
        and "\<forall>y'. y \<le> y' \<and> y' < ?ymax \<and> 4 dvd y' \<longrightarrow>
            \<not> (?I y' - e * 4 \<le> int k \<and> int k < ?I y' + ?xmax)"
      then show "dst' ! k = dst ! k" by (rule frame)
    next
      fix k y' x'
      assume "k < length dst"
        and "y \<le> y' \<and> y' < ?ymax \<and> 4 dvd y' \<and> - e * 4 \<le> x' \<and> x' < ?xmax \<and> 4 dvd x' \<and>
             ?I y' + x' \<le> int k \<and> int k < ?I y' + x' + 4"
      then show "dst' ! k = buffer ! nat (?src x' y' + (int k - (?I y' + x')))"
        by (intro val) auto
    qed
  qed
qed

lemma clamp_src_scaled: "clamp_src (4 * d) w = 4 * clamp d 0 (w - 1)"
  by (simp add: clamp_src_def clamp_def CHANNELS_def)

lemma row_start_pixel:
  "row_start r W (4 * dy) + 4 * dx = ((rect_y r + dy) * W + (rect_x r + dx)) * 4"
  by (simp add: row_start_def algebra_simps)

lemma expand_rows_pixels:
  assumes run: "expand_rows bytes W buffer pos r e (- e * 4) = Some bytes'"
    and len: "int (length bytes) = W * H * 4"
    and ins: "e \<le> rect_x r" "rect_x r + rect_w r + e \<le> W"
    and W: "0 \<le> W"
  shows "length bytes' = length bytes \<and>
    (\<forall>px py c. 0 \<le> px \<and> px < W \<and> 0 \<le> py \<and> py < H \<and> c < 4 \<longrightarrow>
       pixel_byte bytes' 0 W px py c =
         (if (px, py) \<in> pixels \<lparr>rect_x = rect_x r - e, rect_y = rect_y r - e,
                                rect_w = rect_w r + 2 * e, rect_h = rect_h r + 2 * e\<rparr>
          then pixel_byte buffer pos (rect_w r)
                 (clamp (px - rect_x r) 0 (rect_w r - 1)) (clamp (py - rect_y r) 0 (rect_h r - 1)) c
          else pixel_byte bytes 0 W px py c))"
proof -
  let ?region = "\<lparr>rect_x = rect_x r - e, rect_y = rect_y r - e,
                  rect_w = rect_w r + 2 * e, rect_h = rect_h r + 2 * e\<rparr>"
  have dv: "(4::int) dvd - e * 4" by simp
  have wW: "rect_w r + 2 * e \<le> W" using ins by linarith
  note spec = expand_rows_spec [OF run dv W wW]
  note frame = spec [THEN conjunct2, THEN conjunct1, rule_format]
  note val = spec [THEN conjunct2, THEN conjunct2, rule_format]
  have px: "pixel_byte bytes' 0 W px py c =
         (if (px, py) \<in> pixels ?region
          then pixel_byte buffer pos (rect_w r)
                 (clamp (px - rect_x r) 0 (rect_w r - 1)) (clamp (py - rect_y r) 0 (rect_h r - 1)) c
          else pixel_byte bytes 0 W px py c)"
    if r: "0 \<le> px" "px < W" "0 \<le> py" "py < H" "c < 4" for px py c
  proof -
    let ?K = "(py * W + px) * 4 + int c"
    let ?k = "nat ?K"
    have kb: "0 \<le> ?K" "?K < W * H * 4"
      using pixel_index_bound [OF r] by auto
    have k: "?k < length bytes" using kb len by linarith
    have ik: "int ?k = ?K" using kb by simp
    show ?thesis
    proof (cases "(px, py) \<in> pixels ?region")
      case True
      define dx where "dx = px - rect_x r"
      define dy where "dy = py - rect_y r"
      have m: "- e \<le> dx" "dx < rect_w r + e" "- e \<le> dy" "dy < rect_h r + e"
        using True by (auto simp: pixels_def dx_def dy_def)
      have base: "row_start r W (4 * dy) + 4 * dx = (py * W + px) * 4"
        unfolding row_start_pixel by (simp add: dx_def dy_def)
      have "bytes' ! ?k = buffer ! nat (pos + (clamp_src (4 * dx) (rect_w r) + clamp_src (4 * dy) (rect_h r) * rect_w r)
                                + (int ?k - (row_start r W (4 * dy) + 4 * dx)))"
      proof (rule val [OF k], intro conjI)
        show "- e * 4 \<le> 4 * dy" using m by simp
        show "4 * dy < (rect_h r + e) * 4" using m by simp
        show "4 dvd 4 * dy" by simp
        show "- e * 4 \<le> 4 * dx" using m by simp
        show "4 * dx < (rect_w r + e) * 4" using m by simp
        show "4 dvd 4 * dx" by simp
        show "row_start r W (4 * dy) + 4 * dx \<le> int ?k" unfolding base ik by simp
        show "int ?k < row_start r W (4 * dy) + 4 * dx + 4" unfolding base ik using r(5) by simp
      qed
      moreover have "pos + (clamp_src (4 * dx) (rect_w r) + clamp_src (4 * dy) (rect_h r) * rect_w r)
                                + (int ?k - (row_start r W (4 * dy) + 4 * dx)) =
          pos + (clamp dy 0 (rect_h r - 1) * rect_w r + clamp dx 0 (rect_w r - 1)) * 4 + int c"
        unfolding base ik clamp_src_scaled by (simp add: algebra_simps)
      ultimately have "bytes' ! ?k =
          buffer ! nat (pos + (clamp dy 0 (rect_h r - 1) * rect_w r + clamp dx 0 (rect_w r - 1)) * 4 + int c)"
        by (simp only:)
      then show ?thesis
        unfolding pixel_byte_pos dx_def dy_def using True by (simp only: if_True add_0)
    next
      case False
      have "\<not> (row_start r W y' - e * 4 \<le> int ?k \<and> int ?k < row_start r W y' + (rect_w r + e) * 4)"
        if y': "- e * 4 \<le> y' \<and> y' < (rect_h r + e) * 4 \<and> 4 dvd y'" for y'
      proof -
        from y' obtain dy where dy: "y' = 4 * dy" by (auto elim: dvdE)
        have m: "- e \<le> dy" "dy < rect_h r + e" using y' dy by auto
        have lo: "row_start r W y' - e * 4 = ((rect_x r - e) + (rect_y r + dy) * W) * 4"
          unfolding dy by (simp add: row_start_def algebra_simps)
        have hi: "row_start r W y' + (rect_w r + e) * 4 =
            ((rect_x r - e) + (rect_y r + dy) * W) * 4 + (rect_w r + 2 * e) * 4"
          unfolding dy by (simp add: row_start_def algebra_simps)
        have span: "(((rect_x r - e) + (rect_y r + dy) * W) * 4 \<le> (py * W + px) * 4 + int c \<and>
            (py * W + px) * 4 + int c < ((rect_x r - e) + (rect_y r + dy) * W) * 4 + (rect_w r + 2 * e) * 4)
            \<longleftrightarrow> (py = rect_y r + dy \<and> rect_x r - e \<le> px \<and> px < (rect_x r - e) + (rect_w r + 2 * e))"
          using ins r by (intro pixel_in_span) auto
        have "\<not> (py = rect_y r + dy \<and> rect_x r - e \<le> px \<and> px < (rect_x r - e) + (rect_w r + 2 * e))"
          using False m by (auto simp: pixels_def)
        then show ?thesis unfolding lo hi ik span .
      qed
      then have "bytes' ! ?k = bytes ! ?k" by (intro frame [OF k]) blast
      then show ?thesis unfolding pixel_byte_pos using False by (simp only: if_False add_0)
    qed
  qed
  have "length bytes' = length bytes" using spec by simp
  then show ?thesis using px by blast
qed

lemma blit_texture_pixels:
  assumes run: "blit_texture t buffer atlas expand = Some atlas'"
    and data: "image_data atlas = Some bytes"
    and len: "int (length bytes) = image_w atlas * image_h atlas * 4"
    and ins: "inside (written_rect expand t) (image_rect atlas)"
    and W: "0 \<le> image_w atlas"
  shows "image_w atlas' = image_w atlas \<and> image_h atlas' = image_h atlas \<and>
     (\<exists>bytes'. image_data atlas' = Some bytes' \<and> length bytes' = length bytes \<and>
       (\<forall>px py c. 0 \<le> px \<and> px < image_w atlas \<and> 0 \<le> py \<and> py < image_h atlas \<and> c < 4 \<longrightarrow>
          pixel_byte bytes' 0 (image_w atlas) px py c =
            (if (px, py) \<in> pixels (written_rect expand t) then source_byte buffer t px py c
             else pixel_byte bytes 0 (image_w atlas) px py c)))"
proof (cases "expand > 0")
  case True
  let ?r = "rect t"
  from run True data obtain bytes' where
    rows: "expand_rows bytes (image_w atlas) buffer (uint (buffer_index t)) ?r expand (- expand * 4) = Some bytes'"
    and a': "atlas' = atlas\<lparr>image_data := Some bytes'\<rparr>"
    by (auto simp: blit_texture_def CHANNELS_def split: option.splits)
  have i: "expand \<le> rect_x ?r" "rect_x ?r + rect_w ?r + expand \<le> image_w atlas"
    using ins True by (auto simp: inside_def written_rect_def image_rect_def)
  have wr: "written_rect expand t = \<lparr>rect_x = rect_x ?r - expand, rect_y = rect_y ?r - expand,
                  rect_w = rect_w ?r + 2 * expand, rect_h = rect_h ?r + 2 * expand\<rparr>"
    using True by (simp add: written_rect_def)
  note p = expand_rows_pixels [OF rows len i W]
  show ?thesis
    unfolding wr source_byte_def using p a' by simp
next
  case False
  let ?r = "rect t"
  have sp: "blocs__set_pixels atlas buffer (uint (buffer_index t)) ?r = Some atlas'"
    using run False by (simp add: blit_texture_def)
  have wr: "written_rect expand t = ?r"
    using False by (simp add: written_rect_def)
  have i: "0 \<le> rect_x ?r" "0 \<le> rect_y ?r"
    using ins unfolding wr by (auto simp: inside_def image_rect_def)
  note p = set_pixels_pixels [OF sp data len i]
  have same: "source_byte buffer t px py c =
      pixel_byte buffer (uint (buffer_index t)) (rect_w ?r) (px - rect_x ?r) (py - rect_y ?r) c"
    if "(px, py) \<in> pixels ?r" for px py c
    using that by (auto simp: source_byte_def clamp_def pixels_def)
  from p obtain bytes' where b: "image_data atlas' = Some bytes'" "length bytes' = length bytes"
    and px: "\<And>px py c. 0 \<le> px \<and> px < image_w atlas \<and> 0 \<le> py \<and> py < image_h atlas \<and> c < 4 \<Longrightarrow>
          pixel_byte bytes' 0 (image_w atlas) px py c =
            (if (px, py) \<in> pixels ?r
             then pixel_byte buffer (uint (buffer_index t)) (rect_w ?r) (px - rect_x ?r) (py - rect_y ?r) c
             else pixel_byte bytes 0 (image_w atlas) px py c)"
    by blast
  have "pixel_byte bytes' 0 (image_w atlas) px py c =
            (if (px, py) \<in> pixels ?r then source_byte buffer t px py c
             else pixel_byte bytes 0 (image_w atlas) px py c)"
    if "0 \<le> px \<and> px < image_w atlas \<and> 0 \<le> py \<and> py < image_h atlas \<and> c < 4" for px py c
    using px [OF that] same [of px py c] by simp
  then show ?thesis
    unfolding wr using p b by simp
qed


lemma generate_atlas_pixels:
  assumes "blocs__generate_atlas ts buffer atlas expand = Some atlas'"
    and "image_data atlas = Some bytes"
    and "int (length bytes) = image_w atlas * image_h atlas * 4"
    and "0 \<le> image_w atlas"
    and "\<forall>t\<in>set ts. inside (written_rect expand t) (image_rect atlas)"
    and "disjoint_rects (map (written_rect expand) ts)"
  shows "image_w atlas' = image_w atlas \<and> image_h atlas' = image_h atlas \<and>
     (\<exists>bytes'. image_data atlas' = Some bytes' \<and> length bytes' = length bytes \<and>
       (\<forall>px py c. 0 \<le> px \<and> px < image_w atlas \<and> 0 \<le> py \<and> py < image_h atlas \<and> c < 4 \<longrightarrow>
          (\<forall>t\<in>set ts. (px, py) \<in> pixels (written_rect expand t) \<longrightarrow>
             pixel_byte bytes' 0 (image_w atlas) px py c = source_byte buffer t px py c) \<and>
          ((\<forall>t\<in>set ts. (px, py) \<notin> pixels (written_rect expand t)) \<longrightarrow>
             pixel_byte bytes' 0 (image_w atlas) px py c = pixel_byte bytes 0 (image_w atlas) px py c)))"
  using assms
proof (induction ts arbitrary: atlas bytes)
  case Nil
  then show ?case by simp
next
  case (Cons t ts)
  from Cons.prems(1) obtain atlas1 where
    blit: "blit_texture t buffer atlas expand = Some atlas1"
    and rest: "blocs__generate_atlas ts buffer atlas1 expand = Some atlas'"
    by (auto split: option.splits)
  have ins_t: "inside (written_rect expand t) (image_rect atlas)" using Cons.prems(5) by simp
  from blit_texture_pixels [OF blit Cons.prems(2,3) ins_t Cons.prems(4)]
  obtain bytes1 where
    dim1: "image_w atlas1 = image_w atlas" "image_h atlas1 = image_h atlas"
    and d1: "image_data atlas1 = Some bytes1" and l1: "length bytes1 = length bytes"
    and p1: "\<And>px py c. 0 \<le> px \<and> px < image_w atlas \<and> 0 \<le> py \<and> py < image_h atlas \<and> c < 4 \<Longrightarrow>
          pixel_byte bytes1 0 (image_w atlas) px py c =
            (if (px, py) \<in> pixels (written_rect expand t) then source_byte buffer t px py c
             else pixel_byte bytes 0 (image_w atlas) px py c)"
    by blast
  have len1: "int (length bytes1) = image_w atlas1 * image_h atlas1 * 4"
    using l1 dim1 Cons.prems(3) by simp
  have W1: "0 \<le> image_w atlas1" using dim1 Cons.prems(4) by simp
  have ins1: "\<forall>t\<in>set ts. inside (written_rect expand t) (image_rect atlas1)"
    using Cons.prems(5) dim1 by (simp add: image_rect_def)
  have dis1: "disjoint_rects (map (written_rect expand) ts)"
    using Cons.prems(6) by (simp add: disjoint_rects_def)
  have apart: "(px, py) \<notin> pixels (written_rect expand t')"
    if "t' \<in> set ts" "(px, py) \<in> pixels (written_rect expand t)" for t' px py
  proof -
    have "\<not> intersects (written_rect expand t) (written_rect expand t')"
      using Cons.prems(6) that(1) by (auto simp: disjoint_rects_def)
    then show ?thesis using that(2) unfolding intersects_iff by blast
  qed
  from Cons.IH [OF rest d1 len1 W1 ins1 dis1]
  obtain bytes' where
    dim': "image_w atlas' = image_w atlas1" "image_h atlas' = image_h atlas1"
    and d': "image_data atlas' = Some bytes'" and l': "length bytes' = length bytes1"
    and p_in: "\<And>px py c t'. 0 \<le> px \<and> px < image_w atlas1 \<and> 0 \<le> py \<and> py < image_h atlas1 \<and> c < 4 \<Longrightarrow>
          t' \<in> set ts \<Longrightarrow> (px, py) \<in> pixels (written_rect expand t') \<Longrightarrow>
             pixel_byte bytes' 0 (image_w atlas1) px py c = source_byte buffer t' px py c"
    and p_out: "\<And>px py c. 0 \<le> px \<and> px < image_w atlas1 \<and> 0 \<le> py \<and> py < image_h atlas1 \<and> c < 4 \<Longrightarrow>
          \<forall>t\<in>set ts. (px, py) \<notin> pixels (written_rect expand t) \<Longrightarrow>
             pixel_byte bytes' 0 (image_w atlas1) px py c = pixel_byte bytes1 0 (image_w atlas1) px py c"
    by blast
  have in_all: "pixel_byte bytes' 0 (image_w atlas) px py c = source_byte buffer t' px py c"
    if r: "0 \<le> px \<and> px < image_w atlas \<and> 0 \<le> py \<and> py < image_h atlas \<and> c < 4"
      and t': "t' \<in> set (t # ts)" and m: "(px, py) \<in> pixels (written_rect expand t')" for px py c t'
  proof (cases "t' \<in> set ts")
    case True
    then show ?thesis using p_in [of px py c t'] r m dim1 by simp
  next
    case False
    then have e: "t' = t" using t' by simp
    have "\<forall>t\<in>set ts. (px, py) \<notin> pixels (written_rect expand t)"
      using apart m e by blast
    then have "pixel_byte bytes' 0 (image_w atlas) px py c = pixel_byte bytes1 0 (image_w atlas) px py c"
      using p_out [of px py c] r dim1 by simp
    then show ?thesis using p1 [OF r] m e by simp
  qed
  have out_all: "pixel_byte bytes' 0 (image_w atlas) px py c = pixel_byte bytes 0 (image_w atlas) px py c"
    if r: "0 \<le> px \<and> px < image_w atlas \<and> 0 \<le> py \<and> py < image_h atlas \<and> c < 4"
      and m: "\<forall>t\<in>set (t # ts). (px, py) \<notin> pixels (written_rect expand t)" for px py c
  proof -
    have "pixel_byte bytes' 0 (image_w atlas) px py c = pixel_byte bytes1 0 (image_w atlas) px py c"
      using p_out [of px py c] r m dim1 by simp
    then show ?thesis using p1 [OF r] m by simp
  qed
  have "image_w atlas' = image_w atlas" "image_h atlas' = image_h atlas" "length bytes' = length bytes"
    using dim' dim1 l' l1 by simp_all
  then show ?case using d' in_all out_all by blast
qed

lemma clear_pixels_square:
  assumes "blocs__clear_pixels \<lparr>image_w = s, image_h = s, image_data = None\<rparr> = Some atlas0"
  shows "image_w atlas0 = s" and "image_h atlas0 = s"
    and "image_data atlas0 = Some (replicate (nat (s * s * 4)) 0)"
    and "int (length (replicate (nat (s * s * 4)) (0 :: byte))) = image_w atlas0 * image_h atlas0 * 4"
  using assms by (auto simp: blocs__clear_pixels_def CHANNELS_def Let_def split: if_splits)

lemma pixel_byte_clear:
  assumes "0 \<le> px" "px < W" "0 \<le> py" "py < H" "c < 4"
  shows "pixel_byte (replicate (nat (W * H * 4)) 0) 0 W px py c = 0"
proof -
  have "0 \<le> (py * W + px) * 4 + int c \<and> (py * W + px) * 4 + int c < W * H * 4"
    using assms by (rule pixel_index_bound)
  then have "nat ((py * W + px) * 4 + int c) < nat (W * H * 4)" by linarith
  then show ?thesis unfolding pixel_byte_pos by (simp only: add_0 nth_replicate)
qed

lemma make_atlas_pixels:
  assumes run: "make_atlas ts buffer atlas_size expand = Some atlas"
    and size: "0 \<le> atlas_size"
    and ins: "\<forall>t\<in>set ts. inside (written_rect expand t) (start_space atlas_size)"
    and dis: "disjoint_rects (map (written_rect expand) ts)"
  shows "image_w atlas = atlas_size \<and> image_h atlas = atlas_size \<and>
     (\<exists>bytes. image_data atlas = Some bytes \<and> int (length bytes) = atlas_size * atlas_size * 4 \<and>
       (\<forall>px py c. 0 \<le> px \<and> px < atlas_size \<and> 0 \<le> py \<and> py < atlas_size \<and> c < 4 \<longrightarrow>
          (\<forall>t\<in>set ts. (px, py) \<in> pixels (written_rect expand t) \<longrightarrow>
             pixel_byte bytes 0 atlas_size px py c = source_byte buffer t px py c) \<and>
          ((\<forall>t\<in>set ts. (px, py) \<notin> pixels (written_rect expand t)) \<longrightarrow>
             pixel_byte bytes 0 atlas_size px py c = 0)))"
proof -
  from run obtain atlas0 where
    clear: "blocs__clear_pixels \<lparr>image_w = atlas_size, image_h = atlas_size, image_data = None\<rparr> = Some atlas0"
    and gen: "blocs__generate_atlas ts buffer atlas0 expand = Some atlas"
    by (auto simp: make_atlas_def split: option.splits)
  note c = clear_pixels_square [OF clear]
  let ?zero = "replicate (nat (atlas_size * atlas_size * 4)) (0 :: byte)"
  have W0: "0 \<le> image_w atlas0" using c(1) size by simp
  have ins0: "\<forall>t\<in>set ts. inside (written_rect expand t) (image_rect atlas0)"
    using ins c(1,2) by (simp add: image_rect_def start_space_def)
  from generate_atlas_pixels [OF gen c(3) c(4) W0 ins0 dis]
  obtain bytes where
    dim: "image_w atlas = image_w atlas0" "image_h atlas = image_h atlas0"
    and d: "image_data atlas = Some bytes" and l: "length bytes = length ?zero"
    and p_in: "\<And>px py c t. 0 \<le> px \<and> px < image_w atlas0 \<and> 0 \<le> py \<and> py < image_h atlas0 \<and> c < 4 \<Longrightarrow>
          t \<in> set ts \<Longrightarrow> (px, py) \<in> pixels (written_rect expand t) \<Longrightarrow>
             pixel_byte bytes 0 (image_w atlas0) px py c = source_byte buffer t px py c"
    and p_out: "\<And>px py c. 0 \<le> px \<and> px < image_w atlas0 \<and> 0 \<le> py \<and> py < image_h atlas0 \<and> c < 4 \<Longrightarrow>
          \<forall>t\<in>set ts. (px, py) \<notin> pixels (written_rect expand t) \<Longrightarrow>
             pixel_byte bytes 0 (image_w atlas0) px py c = pixel_byte ?zero 0 (image_w atlas0) px py c"
    by blast
  have len: "int (length bytes) = atlas_size * atlas_size * 4"
    using l c(4) c(1,2) by simp
  have a: "pixel_byte bytes 0 atlas_size px py c = source_byte buffer t px py c"
    if "0 \<le> px \<and> px < atlas_size \<and> 0 \<le> py \<and> py < atlas_size \<and> c < 4"
      and "t \<in> set ts" and "(px, py) \<in> pixels (written_rect expand t)" for px py c t
    using p_in [of px py c t] that c(1,2) by simp
  have b: "pixel_byte bytes 0 atlas_size px py c = 0"
    if r: "0 \<le> px \<and> px < atlas_size \<and> 0 \<le> py \<and> py < atlas_size \<and> c < 4"
      and o: "\<forall>t\<in>set ts. (px, py) \<notin> pixels (written_rect expand t)" for px py c
  proof -
    have "pixel_byte bytes 0 atlas_size px py c = pixel_byte ?zero 0 atlas_size px py c"
      using p_out [of px py c] r o c(1,2) by simp
    also have "\<dots> = 0" using r by (intro pixel_byte_clear) auto
    finally show ?thesis .
  qed
  have "image_w atlas = atlas_size" "image_h atlas = atlas_size" using dim c(1,2) by simp_all
  then show ?thesis using d len a b by blast
qed

text \<open>
  What compositing needs of the texture array is what packing provides when every texture
  found a free space and \<open>expand\<close>, \<open>border\<close> and the sizes are not negative: the written
  rectangles lie inside the atlas and no two of them intersect.
\<close>

lemma written_rect_in_footprint:
  assumes "0 \<le> expand" and "0 \<le> border"
  shows "inside (written_rect expand t) (footprint expand border t)"
  using assms by (auto simp: inside_def written_rect_def footprint_def)

lemma inside_trans: "inside a b \<Longrightarrow> inside b c \<Longrightarrow> inside a c"
  by (auto simp: inside_def)

lemma inside_pixels: "inside a b \<Longrightarrow> pixels a \<subseteq> pixels b"
  by (auto simp: inside_def pixels_def)

lemma packed_textures_composable:
  assumes "qsort_spec blocs__compare_area qs"
    and "0 \<le> expand" and "0 \<le> border"
    and "\<forall>t\<in>set textures. 0 \<le> rect_w (rect t) \<and> 0 \<le> rect_h (rect t)"
    and "blocs__pack_atlas qs textures atlas_size expand border = Inr packed"
    and "\<forall>i<length packed. placed qs textures atlas_size expand border ! i"
  shows "(\<forall>t\<in>set packed. inside (written_rect expand t) (start_space atlas_size)) \<and>
         disjoint_rects (map (written_rect expand) packed)"
proof -
  have nonneg: "\<forall>t\<in>set textures. 0 \<le> rect_w (rect t) + (2 * expand + border) \<and>
                         0 \<le> rect_h (rect t) + (2 * expand + border)"
    using assms(2,3,4) by auto
  have ins: "inside (written_rect expand (packed ! i)) (start_space atlas_size)"
    if "i < length packed" for i
  proof -
    have "inside (footprint expand border (packed ! i)) (start_space atlas_size)"
      using assms(1) nonneg assms(5) that by (rule footprint_inside_atlas) (use assms(6) that in simp)
    then show ?thesis
      using written_rect_in_footprint [OF assms(2,3)] by (rule inside_trans [rotated])
  qed
  have apart: "\<not> intersects (written_rect expand (packed ! i)) (written_rect expand (packed ! j))"
    if "i < j" "j < length packed" for i j
  proof -
    have "\<not> intersects (footprint expand border (packed ! i)) (footprint expand border (packed ! j))"
      using assms(1) nonneg assms(5) that by (rule footprints_apart) (use assms(6) that in simp_all)
    moreover have "pixels (written_rect expand (packed ! i)) \<subseteq> pixels (footprint expand border (packed ! i))"
      "pixels (written_rect expand (packed ! j)) \<subseteq> pixels (footprint expand border (packed ! j))"
      using written_rect_in_footprint [OF assms(2,3)] by (auto intro: inside_pixels [THEN subsetD])
    ultimately show ?thesis unfolding intersects_iff by blast
  qed
  have "\<forall>t\<in>set packed. inside (written_rect expand t) (start_space atlas_size)"
    using ins by (auto simp: in_set_conv_nth)
  moreover have "disjoint_rects (map (written_rect expand) packed)"
    using apart by (simp add: disjoint_rects_def sorted_wrt_map sorted_wrt_iff_nth_less)
  ultimately show ?thesis by blast
qed

text \<open>
  Compositing with \<open>expand = 0\<close> when the rects of the array lie inside the atlas and no two
  of them intersect, as they do when every texture found a free space: every pixel inside
  a rect is the pixel of the staging buffer, and every pixel that no rect covers is zero.
\<close>

lemma copy_pixels_disjoint:
  assumes "make_atlas textures buffer atlas_size 0 = Some atlas"
    and "0 \<le> atlas_size"
    and "\<forall>t\<in>set textures. inside (rect t) (start_space atlas_size)"
    and "disjoint_rects (map rect textures)"
  shows "\<exists>bytes. image_data atlas = Some bytes \<and> int (length bytes) = atlas_size * atlas_size * 4 \<and>
     (\<forall>t\<in>set textures. \<forall>dx dy c.
        0 \<le> dx \<and> dx < rect_w (rect t) \<and> 0 \<le> dy \<and> dy < rect_h (rect t) \<and> c < 4 \<longrightarrow>
        pixel_byte bytes 0 atlas_size (rect_x (rect t) + dx) (rect_y (rect t) + dy) c =
          pixel_byte buffer (uint (buffer_index t)) (rect_w (rect t)) dx dy c) \<and>
     (\<forall>px py c. 0 \<le> px \<and> px < atlas_size \<and> 0 \<le> py \<and> py < atlas_size \<and> c < 4 \<and>
        (\<forall>t\<in>set textures. (px, py) \<notin> pixels (rect t)) \<longrightarrow>
        pixel_byte bytes 0 atlas_size px py c = 0)"
proof -
  have wr: "written_rect 0 t = rect t" for t by (simp add: written_rect_def)
  have ins: "\<forall>t\<in>set textures. inside (written_rect 0 t) (start_space atlas_size)"
    using assms(3) by (simp add: wr)
  have "written_rect 0 = rect" by (rule ext) (simp add: wr)
  then have dis: "disjoint_rects (map (written_rect 0) textures)"
    using assms(4) by simp
  from make_atlas_pixels [OF assms(1,2) ins dis]
  obtain bytes where d: "image_data atlas = Some bytes"
    and l: "int (length bytes) = atlas_size * atlas_size * 4"
    and p_in: "\<And>px py c t. 0 \<le> px \<and> px < atlas_size \<and> 0 \<le> py \<and> py < atlas_size \<and> c < 4 \<Longrightarrow>
          t \<in> set textures \<Longrightarrow> (px, py) \<in> pixels (rect t) \<Longrightarrow>
             pixel_byte bytes 0 atlas_size px py c = source_byte buffer t px py c"
    and p_out: "\<And>px py c. 0 \<le> px \<and> px < atlas_size \<and> 0 \<le> py \<and> py < atlas_size \<and> c < 4 \<Longrightarrow>
          \<forall>t\<in>set textures. (px, py) \<notin> pixels (rect t) \<Longrightarrow>
             pixel_byte bytes 0 atlas_size px py c = 0"
    unfolding wr by blast
  have a: "pixel_byte bytes 0 atlas_size (rect_x (rect t) + dx) (rect_y (rect t) + dy) c =
          pixel_byte buffer (uint (buffer_index t)) (rect_w (rect t)) dx dy c"
    if t: "t \<in> set textures"
      and r: "0 \<le> dx \<and> dx < rect_w (rect t) \<and> 0 \<le> dy \<and> dy < rect_h (rect t) \<and> c < 4" for t dx dy c
  proof -
    have i: "inside (rect t) (start_space atlas_size)" using assms(3) t by simp
    have range: "0 \<le> rect_x (rect t) + dx \<and> rect_x (rect t) + dx < atlas_size \<and>
        0 \<le> rect_y (rect t) + dy \<and> rect_y (rect t) + dy < atlas_size \<and> c < 4"
      using i r by (auto simp: inside_def start_space_def)
    have m: "(rect_x (rect t) + dx, rect_y (rect t) + dy) \<in> pixels (rect t)"
      using r by (simp add: pixels_def)
    have "pixel_byte bytes 0 atlas_size (rect_x (rect t) + dx) (rect_y (rect t) + dy) c =
        source_byte buffer t (rect_x (rect t) + dx) (rect_y (rect t) + dy) c"
      using range t m by (rule p_in)
    also have "\<dots> = pixel_byte buffer (uint (buffer_index t)) (rect_w (rect t)) dx dy c"
      using r by (simp add: source_byte_def clamp_def)
    finally show ?thesis .
  qed
  show ?thesis using d l a p_out by blast
qed

lemma copy_pixels_square:
  "blocs__pack_atlas stable_qsort square_textures 4 0 0 = Inr square_packed \<and>
   (\<exists>atlas bytes. make_atlas square_packed example_buffer 4 0 = Some atlas \<and>
      image_data atlas = Some bytes \<and>
      pixel_byte bytes 0 4 2 0 0 = 17 \<and> pixel_byte bytes 0 4 3 3 0 = 0)"
proof -
  have pack: "blocs__pack_atlas stable_qsort square_textures 4 0 0 = Inr square_packed"
    by code_simp
  have "make_atlas square_packed example_buffer 4 0 \<noteq> None" by code_simp
  then obtain atlas where run: "make_atlas square_packed example_buffer 4 0 = Some atlas" by blast
  have ins: "\<forall>t\<in>set square_packed. inside (rect t) (start_space 4)"
    by (simp add: square_packed_def at_position_def new_texture_def inside_def start_space_def)
  have dis: "disjoint_rects (map rect square_packed)"
    by (simp add: square_packed_def at_position_def new_texture_def disjoint_rects_def intersects_def)
  from copy_pixels_disjoint [OF run _ ins dis]
  obtain bytes where d: "image_data atlas = Some bytes"
    and inner: "\<And>t dx dy c. t \<in> set square_packed \<Longrightarrow>
        0 \<le> dx \<and> dx < rect_w (rect t) \<and> 0 \<le> dy \<and> dy < rect_h (rect t) \<and> c < 4 \<Longrightarrow>
        pixel_byte bytes 0 4 (rect_x (rect t) + dx) (rect_y (rect t) + dy) c =
          pixel_byte example_buffer (uint (buffer_index t)) (rect_w (rect t)) dx dy c"
    and outer: "\<And>px py c. 0 \<le> px \<and> px < 4 \<and> 0 \<le> py \<and> py < 4 \<and> c < 4 \<and>
        (\<forall>t\<in>set square_packed. (px, py) \<notin> pixels (rect t)) \<Longrightarrow>
        pixel_byte bytes 0 4 px py c = 0"
    by (auto simp: Ball_def)
  have "pixel_byte bytes 0 4 2 0 0 = 17"
    using inner [of "at_position 2 0 (new_texture 1 1 1 16)" 0 0 0]
    by (simp add: square_packed_def at_position_def new_texture_def pixel_byte_def
          example_buffer_def CHANNELS_def)
  moreover have "pixel_byte bytes 0 4 3 3 0 = 0"
    using outer [of 3 3 0]
    by (simp add: square_packed_def at_position_def new_texture_def pixels_def)
  ultimately show ?thesis using pack run d by blast
qed

section \<open>The claims\<close>

lemma example_textures_nonneg:
  "\<forall>t\<in>set margin_textures. 0 \<le> rect_w (rect t) + (2 * 1 + 0) \<and> 0 \<le> rect_h (rect t) + (2 * 1 + 0)"
  "\<forall>t\<in>set scenario_textures. 0 \<le> rect_w (rect t) + (2 * 0 + 0) \<and> 0 \<le> rect_h (rect t) + (2 * 0 + 0)"
  by (simp_all add: margin_textures_def scenario_textures_def new_texture_def)

lemma margin_run:
  "blocs__pack_atlas stable_qsort margin_textures 10 1 0 = Inr margin_packed"
  "placed stable_qsort margin_textures 10 1 0 = [True, True, True]"
  by code_simp+

lemma scenario_run:
  "blocs__pack_atlas stable_qsort scenario_textures 32 0 0 = Inr scenario_packed"
  "placed stable_qsort scenario_textures 32 0 0 = [True, True, True]"
  by code_simp+

subsection \<open>C1\<close>

text \<open>
  Claim C1. After a pack that returns, the padded footprints of any two textures that
  found a free space do not intersect. The footprint of a texture is the rectangle of size
  \<open>(w + 2 * expand + border) \<times> (h + 2 * expand + border)\<close> anchored at
  \<open>(rect.x - expand, rect.y - expand)\<close>, the corner of the free space it consumed.
  The padded sizes are taken to be non-negative, and \<^verbatim>\<open>qsort\<close> to meet its contract.
\<close>

theorem pack_no_overlap:
  assumes "qsort_spec blocs__compare_area qs"
    and "\<forall>t\<in>set textures. 0 \<le> rect_w (rect t) + (2 * expand + border) \<and>
                         0 \<le> rect_h (rect t) + (2 * expand + border)"
    and "blocs__pack_atlas qs textures atlas_size expand border = Inr packed"
    and "i < j" and "j < length packed"
    and "placed qs textures atlas_size expand border ! i"
    and "placed qs textures atlas_size expand border ! j"
  shows "\<not> intersects (footprint expand border (packed ! i)) (footprint expand border (packed ! j))"
  using assms by (rule footprints_apart)

theorem pack_no_overlap_witness:
  "qsort_spec blocs__compare_area stable_qsort \<and>
   blocs__pack_atlas stable_qsort margin_textures 10 1 0 = Inr margin_packed \<and>
   placed stable_qsort margin_textures 10 1 0 = [True, True, True] \<and>
   \<not> intersects (footprint 1 0 (margin_packed ! 1)) (footprint 1 0 (margin_packed ! 2))"
proof -
  have "\<not> intersects (footprint 1 0 (margin_packed ! 1)) (footprint 1 0 (margin_packed ! 2))"
    using pack_no_overlap [OF stable_qsort_spec example_textures_nonneg(1) margin_run(1), of 1 2]
    by (simp add: margin_run(2) margin_packed_def)
  then show ?thesis using stable_qsort_spec margin_run by simp
qed

subsection \<open>C2\<close>

text \<open>
  Claim C2, as stated, fails when \<open>expand > 0\<close>: a placed texture sits at
  \<open>(space.x + expand, space.y + expand)\<close>, so \<open>rect.x + rect.w + padding\<close> may exceed the
  atlas size by up to \<open>expand\<close>. Here an \<open>8 \<times> 2\<close> texture with \<open>expand = 1\<close> in an atlas of
  size 10 is placed at \<open>(1, 1)\<close> and \<open>1 + 8 + 2 = 11\<close>.
\<close>

theorem containment_counterexample:
  "blocs__pack_atlas stable_qsort margin_textures 10 1 0 = Inr margin_packed \<and>
   placed stable_qsort margin_textures 10 1 0 ! 0 \<and>
   \<not> rect_x (rect (margin_packed ! 0)) + rect_w (rect (margin_packed ! 0)) + (2 * 1 + 0) \<le> 10"
  using margin_run by (simp add: margin_packed_def at_position_def new_texture_def)

text \<open>
  Claim C2, amended. After a pack that returns, every texture that found a free space
  satisfies \<open>rect.x \<ge> expand\<close>, \<open>rect.y \<ge> expand\<close>,
  \<open>rect.x - expand + rect.w + padding \<le> size\<close> and \<open>rect.y - expand + rect.h + padding \<le> size\<close>:
  its padded footprint, anchored at \<open>(rect.x - expand, rect.y - expand)\<close>, lies inside the
  atlas. With \<open>expand = 0\<close> these are the bounds of the claim.
  The padded sizes are taken to be non-negative, and \<^verbatim>\<open>qsort\<close> to meet its contract.
\<close>

theorem pack_containment:
  assumes "qsort_spec blocs__compare_area qs"
    and "\<forall>t\<in>set textures. 0 \<le> rect_w (rect t) + (2 * expand + border) \<and>
                         0 \<le> rect_h (rect t) + (2 * expand + border)"
    and "blocs__pack_atlas qs textures atlas_size expand border = Inr packed"
    and "i < length packed"
    and "placed qs textures atlas_size expand border ! i"
  shows "expand \<le> rect_x (rect (packed ! i)) \<and> expand \<le> rect_y (rect (packed ! i)) \<and>
         rect_x (rect (packed ! i)) - expand + rect_w (rect (packed ! i)) + (2 * expand + border) \<le> atlas_size \<and>
         rect_y (rect (packed ! i)) - expand + rect_h (rect (packed ! i)) + (2 * expand + border) \<le> atlas_size"
proof -
  have "inside (footprint expand border (packed ! i)) (start_space atlas_size)"
    using assms by (rule footprint_inside_atlas)
  then show ?thesis by (simp add: inside_def footprint_def start_space_def)
qed

theorem pack_containment_witness:
  "blocs__pack_atlas stable_qsort margin_textures 10 1 0 = Inr margin_packed \<and>
   placed stable_qsort margin_textures 10 1 0 = [True, True, True] \<and>
   1 \<le> rect_x (rect (margin_packed ! 0)) \<and> 1 \<le> rect_y (rect (margin_packed ! 0)) \<and>
   rect_x (rect (margin_packed ! 0)) - 1 + rect_w (rect (margin_packed ! 0)) + (2 * 1 + 0) \<le> 10 \<and>
   rect_y (rect (margin_packed ! 0)) - 1 + rect_h (rect (margin_packed ! 0)) + (2 * 1 + 0) \<le> 10"
proof -
  have "1 \<le> rect_x (rect (margin_packed ! 0)) \<and> 1 \<le> rect_y (rect (margin_packed ! 0)) \<and>
   rect_x (rect (margin_packed ! 0)) - 1 + rect_w (rect (margin_packed ! 0)) + (2 * 1 + 0) \<le> 10 \<and>
   rect_y (rect (margin_packed ! 0)) - 1 + rect_h (rect (margin_packed ! 0)) + (2 * 1 + 0) \<le> 10"
    using pack_containment [OF stable_qsort_spec example_textures_nonneg(1) margin_run(1), of 0]
    by (simp add: margin_run(2) margin_packed_def)
  then show ?thesis using margin_run by simp
qed

subsection \<open>C3\<close>

text \<open>
  Claim C3 does not hold of the code. The inner loop has no branch for a texture that fits
  no free space: the scan ends, the texture keeps the position it came with (zero, from
  registration), and the loop goes on to the next texture; the run returns normally.
  Here two \<open>6 \<times> 6\<close> textures and a \<open>1 \<times> 1\<close> texture pass both pre-checks for an atlas of size
  10 (area \<open>73 \<le> 85\<close>); the second one fits neither free space and is left at \<open>(0, 0)\<close>,
  on top of the first.
\<close>

theorem no_fit_returns_normally:
  "scan_spaces (update_spaces [start_space 10] 0 6 6) 2 6 6 = None \<and>
   blocs__pack_atlas stable_qsort tight_textures 10 0 0 = Inr tight_packed \<and>
   placed stable_qsort tight_textures 10 0 0 = [True, False, True] \<and>
   intersects (footprint 0 0 (tight_packed ! 0)) (footprint 0 0 (tight_packed ! 1))"
proof -
  have "scan_spaces (update_spaces [start_space 10] 0 6 6) 2 6 6 = None" by code_simp
  moreover have "blocs__pack_atlas stable_qsort tight_textures 10 0 0 = Inr tight_packed" by code_simp
  moreover have "placed stable_qsort tight_textures 10 0 0 = [True, False, True]" by code_simp
  moreover have "intersects (footprint 0 0 (tight_packed ! 0)) (footprint 0 0 (tight_packed ! 1))" by code_simp
  ultimately show ?thesis by simp
qed

subsection \<open>C4\<close>

text \<open>
  Claim C4. With \<open>expand = e > 0\<close>, after the atlas is composited from textures whose
  expanded rectangles lie inside the atlas and do not intersect (as packing leaves them),
  every atlas pixel at offset \<open>(dx, dy)\<close> from a texture's position, for
  \<open>-e \<le> dx < w + e\<close> and \<open>-e \<le> dy < h + e\<close>, equals the source pixel at
  \<open>(clamp dx 0 (w - 1), clamp dy 0 (h - 1))\<close>: clamp to edge on both axes, corners
  included. In particular the pixel at offset \<open>(-k, j)\<close>, for \<open>1 \<le> k \<le> e\<close> and
  \<open>0 \<le> j < h\<close>, equals the source pixel at column 0, row \<open>j\<close>.
\<close>

theorem composite_expand:
  assumes "0 < expand"
    and "make_atlas textures buffer atlas_size expand = Some atlas"
    and "0 \<le> atlas_size"
    and "\<forall>t\<in>set textures. inside (written_rect expand t) (start_space atlas_size)"
    and "disjoint_rects (map (written_rect expand) textures)"
  shows "\<exists>bytes. image_data atlas = Some bytes \<and> int (length bytes) = atlas_size * atlas_size * 4 \<and>
     (\<forall>t\<in>set textures. \<forall>dx dy c.
        - expand \<le> dx \<and> dx < rect_w (rect t) + expand \<and>
        - expand \<le> dy \<and> dy < rect_h (rect t) + expand \<and> c < 4 \<longrightarrow>
        pixel_byte bytes 0 atlas_size (rect_x (rect t) + dx) (rect_y (rect t) + dy) c =
          pixel_byte buffer (uint (buffer_index t)) (rect_w (rect t))
            (clamp dx 0 (rect_w (rect t) - 1)) (clamp dy 0 (rect_h (rect t) - 1)) c) \<and>
     (\<forall>t\<in>set textures. \<forall>k j c.
        0 < rect_w (rect t) \<and> 1 \<le> k \<and> k \<le> expand \<and> 0 \<le> j \<and> j < rect_h (rect t) \<and> c < 4 \<longrightarrow>
        pixel_byte bytes 0 atlas_size (rect_x (rect t) - k) (rect_y (rect t) + j) c =
          pixel_byte buffer (uint (buffer_index t)) (rect_w (rect t)) 0 j c)"
proof -
  from make_atlas_pixels [OF assms(2,3,4,5)]
  obtain bytes where d: "image_data atlas = Some bytes"
    and l: "int (length bytes) = atlas_size * atlas_size * 4"
    and p_in: "\<And>px py c t. 0 \<le> px \<and> px < atlas_size \<and> 0 \<le> py \<and> py < atlas_size \<and> c < 4 \<Longrightarrow>
          t \<in> set textures \<Longrightarrow> (px, py) \<in> pixels (written_rect expand t) \<Longrightarrow>
             pixel_byte bytes 0 atlas_size px py c = source_byte buffer t px py c"
    by blast
  have a: "pixel_byte bytes 0 atlas_size (rect_x (rect t) + dx) (rect_y (rect t) + dy) c =
          pixel_byte buffer (uint (buffer_index t)) (rect_w (rect t))
            (clamp dx 0 (rect_w (rect t) - 1)) (clamp dy 0 (rect_h (rect t) - 1)) c"
    if t: "t \<in> set textures"
      and r: "- expand \<le> dx \<and> dx < rect_w (rect t) + expand \<and>
        - expand \<le> dy \<and> dy < rect_h (rect t) + expand \<and> c < 4" for t dx dy c
  proof -
    have i: "inside (written_rect expand t) (start_space atlas_size)" using assms(4) t by simp
    have range: "0 \<le> rect_x (rect t) + dx \<and> rect_x (rect t) + dx < atlas_size \<and>
        0 \<le> rect_y (rect t) + dy \<and> rect_y (rect t) + dy < atlas_size \<and> c < 4"
      using i r assms(1) by (auto simp: inside_def start_space_def written_rect_def)
    have m: "(rect_x (rect t) + dx, rect_y (rect t) + dy) \<in> pixels (written_rect expand t)"
      using r assms(1) by (simp add: pixels_def written_rect_def)
    have "pixel_byte bytes 0 atlas_size (rect_x (rect t) + dx) (rect_y (rect t) + dy) c =
        source_byte buffer t (rect_x (rect t) + dx) (rect_y (rect t) + dy) c"
      using range t m by (rule p_in)
    then show ?thesis by (simp add: source_byte_def)
  qed
  have b: "pixel_byte bytes 0 atlas_size (rect_x (rect t) - k) (rect_y (rect t) + j) c =
          pixel_byte buffer (uint (buffer_index t)) (rect_w (rect t)) 0 j c"
    if t: "t \<in> set textures"
      and r: "0 < rect_w (rect t) \<and> 1 \<le> k \<and> k \<le> expand \<and> 0 \<le> j \<and> j < rect_h (rect t) \<and> c < 4" for t k j c
  proof -
    have "pixel_byte bytes 0 atlas_size (rect_x (rect t) + (- k)) (rect_y (rect t) + j) c =
          pixel_byte buffer (uint (buffer_index t)) (rect_w (rect t))
            (clamp (- k) 0 (rect_w (rect t) - 1)) (clamp j 0 (rect_h (rect t) - 1)) c"
      using t by (rule a) (use r assms(1) in auto)
    moreover have "clamp (- k) 0 (rect_w (rect t) - 1) = 0" "clamp j 0 (rect_h (rect t) - 1) = j"
      using r by (auto simp: clamp_def)
    ultimately show ?thesis by simp
  qed
  show ?thesis using d l a b by blast
qed

theorem composite_expand_witness:
  "blocs__pack_atlas stable_qsort row_textures 10 1 0 = Inr row_packed \<and>
   (\<exists>atlas bytes. make_atlas row_packed example_buffer 10 1 = Some atlas \<and>
      image_data atlas = Some bytes \<and>
      pixel_byte bytes 0 10 0 1 0 = pixel_byte example_buffer 0 2 0 0 0 \<and>
      pixel_byte bytes 0 10 3 2 1 = pixel_byte example_buffer 0 2 1 0 1)"
proof -
  have pack: "blocs__pack_atlas stable_qsort row_textures 10 1 0 = Inr row_packed"
    by code_simp
  have "make_atlas row_packed example_buffer 10 1 \<noteq> None" by code_simp
  then obtain atlas where run: "make_atlas row_packed example_buffer 10 1 = Some atlas" by blast
  have ins: "\<forall>t\<in>set row_packed. inside (written_rect 1 t) (start_space 10)"
    by (simp add: row_packed_def at_position_def new_texture_def inside_def start_space_def
          written_rect_def)
  have dis: "disjoint_rects (map (written_rect 1) row_packed)"
    by (simp add: row_packed_def at_position_def new_texture_def disjoint_rects_def intersects_def
          written_rect_def)
  from composite_expand [OF _ run _ ins dis]
  obtain bytes where d: "image_data atlas = Some bytes"
    and clamped: "\<And>t dx dy c. t \<in> set row_packed \<Longrightarrow>
        - 1 \<le> dx \<and> dx < rect_w (rect t) + 1 \<and> - 1 \<le> dy \<and> dy < rect_h (rect t) + 1 \<and> c < 4 \<Longrightarrow>
        pixel_byte bytes 0 10 (rect_x (rect t) + dx) (rect_y (rect t) + dy) c =
          pixel_byte example_buffer (uint (buffer_index t)) (rect_w (rect t))
            (clamp dx 0 (rect_w (rect t) - 1)) (clamp dy 0 (rect_h (rect t) - 1)) c"
    and left: "\<And>t k j c. t \<in> set row_packed \<Longrightarrow>
        0 < rect_w (rect t) \<and> 1 \<le> k \<and> k \<le> 1 \<and> 0 \<le> j \<and> j < rect_h (rect t) \<and> c < 4 \<Longrightarrow>
        pixel_byte bytes 0 10 (rect_x (rect t) - k) (rect_y (rect t) + j) c =
          pixel_byte example_buffer (uint (buffer_index t)) (rect_w (rect t)) 0 j c"
    by (auto simp: Ball_def)
  have "pixel_byte bytes 0 10 0 1 0 = pixel_byte example_buffer 0 2 0 0 0"
    using left [of "at_position 1 1 (new_texture 2 1 0 0)" 1 0 0]
    by (simp add: row_packed_def at_position_def new_texture_def)
  moreover have "pixel_byte bytes 0 10 3 2 1 = pixel_byte example_buffer 0 2 1 0 1"
    using clamped [of "at_position 1 1 (new_texture 2 1 0 0)" 2 1 1]
    by (simp add: row_packed_def at_position_def new_texture_def clamp_def)
  ultimately show ?thesis using pack run d by blast
qed

subsection \<open>C5\<close>

text \<open>
  Claim C5, as stated, fails in its second half: \<^verbatim>\<open>qsort\<close> (and \<^verbatim>\<open>std::sort\<close> in the C++
  implementation) is not a stable sort. \<open>reversing_qsort\<close> meets the contract of \<^verbatim>\<open>qsort\<close>,
  and with it two textures of equal height are placed in the reverse of their insertion
  order (name indices 1, 0, 2).
\<close>

theorem stable_order_counterexample:
  "qsort_spec blocs__compare_area reversing_qsort \<and>
   blocs__pack_atlas reversing_qsort tie_textures 100 0 0 = Inr tie_packed_reversed \<and>
   map name_index tie_textures = [0, 1, 2] \<and>
   map name_index tie_packed_reversed = [1, 0, 2] \<and>
   map (\<lambda>t. rect_h (rect t)) tie_textures = [10, 10, 5]"
proof -
  have "blocs__pack_atlas reversing_qsort tie_textures 100 0 0 = Inr tie_packed_reversed"
    by code_simp
  then show ?thesis
    using reversing_qsort_spec
    by (simp add: tie_textures_def tie_packed_reversed_def at_position_def new_texture_def)
qed

text \<open>
  Claim C5, amended. The order in which pack places the textures is the order of the array
  that \<^verbatim>\<open>qsort\<close> returns: a rearrangement of the input in which \<open>rect.h\<close> never increases.
  The relative order of textures of equal height is whatever \<^verbatim>\<open>qsort\<close> yields; it is not
  specified.
\<close>

theorem pack_order:
  assumes "qsort_spec blocs__compare_area qs"
    and "blocs__pack_atlas qs textures atlas_size expand border = Inr packed"
  shows "map source_of packed = map source_of (qs blocs__compare_area textures) \<and>
         mset (map source_of packed) = mset (map source_of textures) \<and>
         sorted_wrt (\<lambda>a b. rect_h (rect a) \<ge> rect_h (rect b)) packed"
proof -
  let ?sorted = "qs blocs__compare_area textures"
  have run: "place_textures atlas_size expand (2 * expand + border) (length textures)
           [start_space atlas_size] ?sorted = Inr packed"
    using assms(2) by (rule pack_atlas_Inr)
  have m: "map source_of packed = map source_of ?sorted"
    using run by (rule place_textures_source)
  have "mset ?sorted = mset textures" using assms(1) by (simp add: qsort_spec_def)
  then have p: "mset (map source_of packed) = mset (map source_of textures)"
    unfolding m by (metis mset_map)
  have s: "sorted_wrt (\<lambda>a b. rect_h (rect b) \<le> rect_h (rect a)) ?sorted"
    using assms(1) by (simp add: qsort_spec_def blocs__compare_area_def)
  have "sorted_wrt (\<lambda>a b. fst (snd b) \<le> fst (snd a)) (map source_of ?sorted)"
    using s by (simp add: sorted_wrt_map source_of_def)
  then have "sorted_wrt (\<lambda>a b. fst (snd b) \<le> fst (snd a)) (map source_of packed)"
    by (simp add: m)
  then have "sorted_wrt (\<lambda>a b. rect_h (rect a) \<ge> rect_h (rect b)) packed"
    by (simp add: sorted_wrt_map source_of_def)
  then show ?thesis using m p by blast
qed

theorem pack_order_witness:
  "blocs__pack_atlas stable_qsort scenario_textures 32 0 0 = Inr scenario_packed \<and>
   map source_of scenario_packed = map source_of (stable_qsort blocs__compare_area scenario_textures) \<and>
   mset (map source_of scenario_packed) = mset (map source_of scenario_textures) \<and>
   sorted_wrt (\<lambda>a b. rect_h (rect a) \<ge> rect_h (rect b)) scenario_packed"
  using pack_order [OF stable_qsort_spec scenario_run(1)] scenario_run(1) by blast

subsection \<open>C6\<close>

text \<open>
  Claim C6 does not hold of the code where the sum of the padded areas leaves the range of
  \<^verbatim>\<open>int\<close>, in which the first loop accumulates it. 128 textures of \<open>1 \<times> 1\<close> with \<open>expand = 0\<close> and
  \<open>border = 4095\<close> in an atlas of size 4096 have the padded size \<open>4096 \<times> 4096\<close> each: none is
  oversized, and their padded areas sum to \<open>2\<^sup>3\<^sup>1\<close>, 128 times the area of the atlas. After
  the last addition \<^verbatim>\<open>area\<close> holds \<open>-2\<^sup>3\<^sup>1\<close>, the assertion \<^verbatim>\<open>area <= size * size * 0.85\<close>
  passes and the placement loop runs: the first texture takes the whole atlas, the other
  127 fit no free space and keep the position \<open>(0, 0)\<close>, and pack returns normally instead of
  stopping with \<open>InsufficientSpace\<close>.
\<close>

theorem area_overflow_passes_precheck:
  "padded_area 4095 crowded_textures = 2 ^ 31 \<and>
   real_of_int (padded_area 4095 crowded_textures) > 0.85 * (real_of_int 4096)\<^sup>2 \<and>
   measure_textures 4095 crowded_textures (0, 0, 0) = (- (2 ^ 31), 4096, 4096) \<and>
   blocs__pack_atlas stable_qsort crowded_textures 4096 0 4095 = Inr crowded_textures \<and>
   placed stable_qsort crowded_textures 4096 0 4095 = True # replicate 127 False"
proof -
  have a: "padded_area 4095 crowded_textures = 2 ^ 31" by code_simp
  have m: "measure_textures 4095 crowded_textures (0, 0, 0) = (- (2 ^ 31), 4096, 4096)"
    by code_simp
  have r: "blocs__pack_atlas stable_qsort crowded_textures 4096 0 4095 = Inr crowded_textures"
    by code_simp
  have f: "placed stable_qsort crowded_textures 4096 0 4095 = True # replicate 127 False"
    by code_simp
  have "real_of_int (2 ^ 31) > 0.85 * (real_of_int 4096)\<^sup>2" by simp
  then show ?thesis using a m r f by simp
qed

subsection \<open>C7\<close>

text \<open>
  Claim C7. An iteration of the placement loop whose texture, of padded size \<open>w \<times> h\<close>,
  passes the assertion of the loop and is placed into a free space \<open>spaces[j]\<close> that is
  strictly wider and strictly taller, with a slot of the array still free: the texture is
  positioned at the corner of the space, and the loop goes on to the next texture with the
  new space \<open>{space.x + w, space.y, space.w - w, h}\<close> appended at the end of the list and the
  consumed space \<open>{space.x, space.y + h, space.w, space.h - h}\<close> at its own index \<open>j\<close>: first
  the push, then the shrink in place, and no other entry changed.
\<close>

theorem place_textures_split:
  assumes "rect_w (rect t) \<le> atlas_size" and "rect_h (rect t) \<le> atlas_size"
    and "scan_spaces spaces (length spaces) (rect_w (rect t) + padding) (rect_h (rect t) + padding) = Some j"
    and "rect_w (rect t) + padding < rect_w (spaces ! j)"
    and "rect_h (rect t) + padding < rect_h (spaces ! j)"
    and "length spaces < cap"
  shows "j < length spaces \<and>
     place_textures atlas_size expand padding cap spaces (t # ts) =
     keep (t\<lparr>rect := (rect t)\<lparr>rect_x := rect_x (spaces ! j) + expand,
                                 rect_y := rect_y (spaces ! j) + expand\<rparr>\<rparr>)
       (place_textures atlas_size expand padding cap
          ((spaces @ [\<lparr>rect_x = rect_x (spaces ! j) + (rect_w (rect t) + padding),
                       rect_y = rect_y (spaces ! j),
                       rect_w = rect_w (spaces ! j) - (rect_w (rect t) + padding),
                       rect_h = rect_h (rect t) + padding\<rparr>])
             [j := \<lparr>rect_x = rect_x (spaces ! j),
                    rect_y = rect_y (spaces ! j) + (rect_h (rect t) + padding),
                    rect_w = rect_w (spaces ! j),
                    rect_h = rect_h (spaces ! j) - (rect_h (rect t) + padding)\<rparr>]) ts)"
proof -
  have j: "j < length spaces" using assms(3) by (simp add: scan_spaces_Some)
  have u: "update_spaces spaces j (rect_w (rect t) + padding) (rect_h (rect t) + padding) =
      (spaces @ [\<lparr>rect_x = rect_x (spaces ! j) + (rect_w (rect t) + padding),
                       rect_y = rect_y (spaces ! j),
                       rect_w = rect_w (spaces ! j) - (rect_w (rect t) + padding),
                       rect_h = rect_h (rect t) + padding\<rparr>])
             [j := \<lparr>rect_x = rect_x (spaces ! j),
                    rect_y = rect_y (spaces ! j) + (rect_h (rect t) + padding),
                    rect_w = rect_w (spaces ! j),
                    rect_h = rect_h (spaces ! j) - (rect_h (rect t) + padding)\<rparr>]"
    using assms(4,5) by (rule update_spaces_split_case)
  have len: "length (update_spaces spaces j (rect_w (rect t) + padding) (rect_h (rect t) + padding)) =
      Suc (length spaces)"
    unfolding u by simp
  have "place_textures atlas_size expand padding cap spaces (t # ts) =
      keep (set_position t (spaces ! j) expand)
        (place_textures atlas_size expand padding cap
           (update_spaces spaces j (rect_w (rect t) + padding) (rect_h (rect t) + padding)) ts)"
    using assms(1,2,3,6) len by (simp add: Let_def)
  then show ?thesis using j by (simp add: u set_position_def)
qed

theorem place_textures_split_witness:
  "place_textures 32 0 0 3 [start_space 32] [new_texture 8 16 0 0, new_texture 16 8 1 512] =
     keep (new_texture 8 16 0 0)
       (place_textures 32 0 0 3
          [\<lparr>rect_x = 0, rect_y = 16, rect_w = 32, rect_h = 16\<rparr>,
           \<lparr>rect_x = 8, rect_y = 0, rect_w = 24, rect_h = 16\<rparr>]
          [new_texture 16 8 1 512]) \<and>
   place_textures 32 0 0 3 [start_space 32] [new_texture 8 16 0 0, new_texture 16 8 1 512] =
     Inr [new_texture 8 16 0 0, at_position 8 0 (new_texture 16 8 1 512)]"
proof -
  have "place_textures 32 0 0 3 [start_space 32] [new_texture 8 16 0 0, new_texture 16 8 1 512] =
     keep (new_texture 8 16 0 0)
       (place_textures 32 0 0 3
          [\<lparr>rect_x = 0, rect_y = 16, rect_w = 32, rect_h = 16\<rparr>,
           \<lparr>rect_x = 8, rect_y = 0, rect_w = 24, rect_h = 16\<rparr>]
          [new_texture 16 8 1 512])"
    using place_textures_split [of "new_texture 8 16 0 0" 32 "[start_space 32]" 0 0 3 0
        "[new_texture 16 8 1 512]"]
    by (simp add: start_space_def new_texture_def)
  moreover have "place_textures 32 0 0 3 [start_space 32] [new_texture 8 16 0 0, new_texture 16 8 1 512] =
     Inr [new_texture 8 16 0 0, at_position 8 0 (new_texture 16 8 1 512)]"
    by code_simp
  ultimately show ?thesis by simp
qed

subsection \<open>C8\<close>

text \<open>
  Claim C8 does not hold of the code on a run in which a texture found no free space, the
  defect of C3. Compositing copies every texture of the array to its rect, in the order of
  the array, and a texture that fits nowhere still has the rect \<open>{0, 0, w, h}\<close>. For the two
  \<open>6 \<times> 6\<close> textures and the \<open>1 \<times> 1\<close> texture in an atlas of size 10, with \<open>expand = 0\<close>, pack
  returns with the first and the second texture at \<open>(0, 0)\<close>, and compositing completes: the
  atlas pixel \<open>(0, 0)\<close>, inside the rect of the first texture, which was placed, holds the
  byte 2 of the second texture and not the byte 1 of the first.
\<close>

theorem unfitted_texture_overwrites:
  "blocs__pack_atlas stable_qsort tight_textures 10 0 0 = Inr tight_packed \<and>
   placed stable_qsort tight_textures 10 0 0 = [True, False, True] \<and>
   rect (tight_packed ! 0) = \<lparr>rect_x = 0, rect_y = 0, rect_w = 6, rect_h = 6\<rparr> \<and>
   pixel_byte tight_buffer (uint (buffer_index (tight_packed ! 0))) 6 0 0 0 = 1 \<and>
   (\<exists>atlas bytes. make_atlas tight_packed tight_buffer 10 0 = Some atlas \<and>
      image_data atlas = Some bytes \<and> pixel_byte bytes 0 10 0 0 0 = 2)"
proof -
  have p: "blocs__pack_atlas stable_qsort tight_textures 10 0 0 = Inr tight_packed" by code_simp
  have f: "placed stable_qsort tight_textures 10 0 0 = [True, False, True]" by code_simp
  have r: "rect (tight_packed ! 0) = \<lparr>rect_x = 0, rect_y = 0, rect_w = 6, rect_h = 6\<rparr>"
    by (simp add: tight_packed_def at_position_def new_texture_def)
  have s: "pixel_byte tight_buffer (uint (buffer_index (tight_packed ! 0))) 6 0 0 0 = 1"
    by code_simp
  have "case make_atlas tight_packed tight_buffer 10 0 of
          None \<Rightarrow> False
        | Some atlas \<Rightarrow>
            (case image_data atlas of None \<Rightarrow> False | Some bytes \<Rightarrow> pixel_byte bytes 0 10 0 0 0 = 2)"
    by code_simp
  then have "\<exists>atlas bytes. make_atlas tight_packed tight_buffer 10 0 = Some atlas \<and>
      image_data atlas = Some bytes \<and> pixel_byte bytes 0 10 0 0 0 = 2"
    by (auto split: option.splits)
  then show ?thesis using p f r s by simp
qed

subsection \<open>C9\<close>

text \<open>
  Claim C9. After the images are registered in order, the first texture has buffer offset
  0 and each next one the previous offset plus \<open>w * h * 4\<close>. In \<^verbatim>\<open>uint32_t\<close> arithmetic this
  holds of every run; when the staging buffer is shorter than \<open>2\<^sup>3\<^sup>2\<close> bytes and every
  \<open>w * h * 4\<close> is a \<^verbatim>\<open>uint32_t\<close> value, no addition wraps around, so the offsets are the
  running sums, in insertion order, without gaps or overlaps, and end inside the buffer.
\<close>

theorem buffer_offsets:
  assumes "add_textures atlas_size demo images 0 (textures0, buffer0, 0) = Some (textures, buffer, pos)"
  shows "(images \<noteq> [] \<longrightarrow> buffer_index (textures ! 0) = 0) \<and>
         (\<forall>i. Suc i < length images \<longrightarrow>
            buffer_index (textures ! Suc i) =
              buffer_index (textures ! i) +
              word_of_int (image_w (images ! i) * image_h (images ! i) * 4)) \<and>
         (length buffer0 < 2 ^ 32 \<and>
          (\<forall>img\<in>set images. 0 \<le> image_w img * image_h img * 4 \<and> image_w img * image_h img * 4 < 2 ^ 32) \<longrightarrow>
            (\<forall>i. Suc i < length images \<longrightarrow>
               uint (buffer_index (textures ! Suc i)) =
                 uint (buffer_index (textures ! i)) + image_w (images ! i) * image_h (images ! i) * 4) \<and>
            uint pos = (\<Sum>img\<leftarrow>images. image_w img * image_h img * 4) \<and>
            uint pos \<le> int (length buffer0))"
proof -
  note aux = add_textures_offsets_aux [OF assms]
  have nth: "buffer_index (textures ! k) = word_of_int (sum_list (map image_bytes (take k images)))"
    if "k < length images" for k
  proof -
    have "textures ! (0 + k) = new_texture (image_w (images ! k)) (image_h (images ! k))
        (if demo then 0 else int (0 + k)) (0 + word_of_int (sum_list (map image_bytes (take k images))))"
      using aux that by blast
    then show ?thesis by (simp add: new_texture_def)
  qed
  have first: "images \<noteq> [] \<longrightarrow> buffer_index (textures ! 0) = 0"
    using nth [of 0] by simp
  have step: "buffer_index (textures ! Suc i) =
      buffer_index (textures ! i) + word_of_int (image_w (images ! i) * image_h (images ! i) * 4)"
    if "Suc i < length images" for i
  proof -
    have "take (Suc i) images = take i images @ [images ! i]"
      using that by (simp add: take_Suc_conv_app_nth)
    then show ?thesis using that nth [of i] nth [of "Suc i"]
      by (simp add: image_bytes_def CHANNELS_def)
  qed
  have exact: "(\<forall>i. Suc i < length images \<longrightarrow>
               uint (buffer_index (textures ! Suc i)) =
                 uint (buffer_index (textures ! i)) + image_w (images ! i) * image_h (images ! i) * 4) \<and>
            uint pos = (\<Sum>img\<leftarrow>images. image_w img * image_h img * 4) \<and>
            uint pos \<le> int (length buffer0)"
    if len: "length buffer0 < 2 ^ 32"
      and wf: "\<forall>img\<in>set images. 0 \<le> image_w img * image_h img * 4 \<and> image_w img * image_h img * 4 < 2 ^ 32"
  proof -
    note nw = add_textures_no_wrap_aux [OF assms len]
    have sb: "stored_bytes img = image_w img * image_h img * 4" if "img \<in> set images" for img
      using wf that stored_bytes_eq [of img] by (simp add: image_bytes_def CHANNELS_def)
    have sums: "sum_list (map stored_bytes (take k images)) = (\<Sum>img\<leftarrow>take k images. image_w img * image_h img * 4)" for k
      by (rule arg_cong [where f = sum_list], rule map_cong [OF refl]) (auto dest: in_set_takeD simp: sb)
    have e1: "uint (buffer_index (textures ! Suc i)) =
                 uint (buffer_index (textures ! i)) + image_w (images ! i) * image_h (images ! i) * 4"
      if i: "Suc i < length images" for i
    proof -
      have t: "take (Suc i) images = take i images @ [images ! i]"
        using i by (simp add: take_Suc_conv_app_nth)
      have "uint (buffer_index (textures ! (0 + Suc i))) = uint (0 :: 32 word) + sum_list (map stored_bytes (take (Suc i) images))"
        using nw i by blast
      moreover have "uint (buffer_index (textures ! (0 + i))) = uint (0 :: 32 word) + sum_list (map stored_bytes (take i images))"
        using nw i by (metis Suc_lessD)
      moreover have "stored_bytes (images ! i) = image_w (images ! i) * image_h (images ! i) * 4"
        using i by (intro sb) simp
      ultimately show ?thesis using i by (simp add: sums t)
    qed
    have e2: "uint pos = (\<Sum>img\<leftarrow>images. image_w img * image_h img * 4)"
      using nw sums [of "length images"] by simp
    have e3: "uint pos \<le> int (length buffer0)"
    proof (cases "images = []")
      case True
      then show ?thesis using assms by simp
    next
      case False
      then show ?thesis using nw by simp
    qed
    show ?thesis using e1 e2 e3 by blast
  qed
  show ?thesis using first step exact by blast
qed

theorem buffer_offsets_witness:
  "\<exists>textures buffer pos.
     add_textures 4 False example_images 0 example_staging = Some (textures, buffer, pos) \<and>
     buffer_index (textures ! 0) = 0 \<and>
     uint (buffer_index (textures ! 1)) = uint (buffer_index (textures ! 0)) + 1 * 1 * 4 \<and>
     uint (buffer_index (textures ! 2)) = uint (buffer_index (textures ! 1)) + 2 * 1 * 4 \<and>
     uint pos = 20"
proof -
  obtain textures buffer pos where
    run: "add_textures 4 False example_images 0 (replicate 3 (new_texture 0 0 0 0), replicate 64 0, 0) =
            Some (textures, buffer, pos)"
    by (simp add: example_images_def blocs__add_texture_def memcpy_def CHANNELS_def Let_def)
  note t = buffer_offsets [OF run]
  have wf: "length (replicate 64 (0 :: byte)) < 2 ^ 32 \<and>
      (\<forall>img\<in>set example_images. 0 \<le> image_w img * image_h img * 4 \<and> image_w img * image_h img * 4 < 2 ^ 32)"
    by (simp add: example_images_def)
  have n: "example_images \<noteq> []" "Suc 0 < length example_images" "Suc 1 < length example_images"
    by (simp_all add: example_images_def)
  have "buffer_index (textures ! 0) = 0" using t n(1) by blast
  moreover have "uint (buffer_index (textures ! Suc 0)) =
      uint (buffer_index (textures ! 0)) + image_w (example_images ! 0) * image_h (example_images ! 0) * 4"
    using t wf n(2) by blast
  moreover have "uint (buffer_index (textures ! Suc 1)) =
      uint (buffer_index (textures ! 1)) + image_w (example_images ! 1) * image_h (example_images ! 1) * 4"
    using t wf n(3) by blast
  moreover have "uint pos = (\<Sum>img\<leftarrow>example_images. image_w img * image_h img * 4)"
    using t wf by blast
  ultimately show ?thesis
    using run by (simp add: example_images_def example_staging_def numeral_2_eq_2)
qed

subsection \<open>C10\<close>

text \<open>
  Claim C10 states the bound that the array \<^verbatim>\<open>blocs__rect spaces[len]\<close> needs, and the code
  does not keep it. The list starts with one rectangle and a split adds one, so after \<open>k\<close>
  placements that all split it holds \<open>k + 1\<close> rectangles: the write \<^verbatim>\<open>spaces[n++]\<close> of the
  last texture has \<open>n = len\<close>. Three textures of heights 12, 11, 10 in an atlas of size 100
  split three times: the run with 3 slots leaves the array at the third texture, the same
  run with 4 slots returns.
\<close>

theorem spaces_array_overflow:
  "blocs__pack_atlas stable_qsort stepped_textures 100 0 0 = Inl (SpacesOutOfBounds, stepped_packed) \<and>
   length stepped_textures = 3 \<and>
   place_textures 100 0 0 4 [start_space 100] stepped_textures = Inr stepped_packed"
proof -
  have "blocs__pack_atlas stable_qsort stepped_textures 100 0 0 = Inl (SpacesOutOfBounds, stepped_packed)"
    by code_simp
  moreover have "place_textures 100 0 0 4 [start_space 100] stepped_textures = Inr stepped_packed"
    by code_simp
  ultimately show ?thesis by (simp add: stepped_textures_def)
qed


end
